theory Spec2Isabelle
  imports Main
begin

section \<open>Data model of \<open>src/components/board.tsx\<close>\<close>

text \<open>
  \<^verbatim>\<open>type Player = "X" | "O"; type CellValue = Player | null; type Board = CellValue[]\<close>.
  The marks \<open>"X"\<close> and \<open>"O"\<close> are \<open>PlayerX\<close> and \<open>PlayerO\<close> (\<open>O\<close> is taken by the
  composition of relations); a cell is \<open>None\<close> for \<open>null\<close>. A board is a list of cells of any length, as the type
  \<open>CellValue[]\<close> allows; the game itself only builds boards of nine cells.
\<close>

datatype Player = PlayerX | PlayerO

type_synonym CellValue = "Player option"

type_synonym Board = "CellValue list"

text \<open>
  Scores are JavaScript numbers. The search only ever produces \<open>-Infinity\<close>, \<open>Infinity\<close>
  and integers (\<open>10 - depth\<close>, \<open>depth - 10\<close>, \<open>0\<close> with an integral \<open>depth\<close>), so a score is
  an integer extended by the two infinities, ordered as the numbers are.
\<close>

datatype Num = NegInf | Fin int | PosInf

instantiation Num :: linorder
begin

fun less_eq_Num :: "Num \<Rightarrow> Num \<Rightarrow> bool" where
  "less_eq_Num NegInf y = True"
| "less_eq_Num (Fin a) NegInf = False"
| "less_eq_Num (Fin a) (Fin b) = (a \<le> b)"
| "less_eq_Num (Fin a) PosInf = True"
| "less_eq_Num PosInf PosInf = True"
| "less_eq_Num PosInf y = False"

definition less_Num :: "Num \<Rightarrow> Num \<Rightarrow> bool" where
  "less_Num x y = (x \<le> y \<and> \<not> y \<le> (x::Num))"

instance
proof
  fix x y z :: Num
  show "(x < y) = (x \<le> y \<and> \<not> y \<le> x)"
    by (simp add: less_Num_def)
  show "x \<le> x"
    by (cases x) simp_all
  show "x \<le> y \<Longrightarrow> y \<le> z \<Longrightarrow> x \<le> z"
    by (cases x; cases y; cases z) simp_all
  show "x \<le> y \<Longrightarrow> y \<le> x \<Longrightarrow> x = y"
    by (cases x; cases y) simp_all
  show "x \<le> y \<or> y \<le> x"
    by (cases x; cases y) auto
qed

end

section \<open>Array access\<close>

text \<open>
  \<open>board[i]\<close>: a read beyond the end of a JavaScript array gives \<open>undefined\<close>, which like
  \<open>null\<close> is falsy and is equal to no mark. The only reads that can be out of range are
  those of \<open>checkWinnerForMiniMax\<close> on a board shorter than nine cells, where \<open>undefined\<close>
  and \<open>null\<close> behave alike, so both are \<open>None\<close>.
\<close>

definition cell :: "Board \<Rightarrow> nat \<Rightarrow> CellValue" where
  "cell board i = (if i < length board then board ! i else None)"

text \<open>
  \<open>board[i] = v\<close>: a write inside the array replaces the cell; a write beyond its end
  would extend the array (the holes are modelled as empty cells). Every write of the
  search is in range, see \<open>setCell_in_range\<close> and the frame lemmas below.
\<close>

definition setCell :: "Board \<Rightarrow> nat \<Rightarrow> CellValue \<Rightarrow> Board" where
  "setCell board i v =
     (if i < length board then board[i := v]
      else board @ replicate (i - length board) None @ [v])"

section \<open>Terminal-state evaluator\<close>

definition winPatterns :: "(nat \<times> nat \<times> nat) list" where
  "winPatterns =
     [(0, 1, 2), (3, 4, 5), (6, 7, 8),
      (0, 3, 6), (1, 4, 7), (2, 5, 8),
      (0, 4, 8), (2, 4, 6)]"

text \<open>
  The loop \<^verbatim>\<open>for (const pattern of winPatterns)\<close>: the first pattern whose three cells
  hold the same mark decides; \<open>board[a] &&\<close> is the test that the first cell is not empty.
\<close>

fun checkPatterns :: "(nat \<times> nat \<times> nat) list \<Rightarrow> Board \<Rightarrow> Player option" where
  "checkPatterns [] board = None"
| "checkPatterns ((a, b, c) # ps) board =
     (if cell board a \<noteq> None \<and> cell board a = cell board b \<and> cell board a = cell board c
      then cell board a
      else checkPatterns ps board)"

definition checkWinnerForMiniMax :: "Board \<Rightarrow> Player option" where
  "checkWinnerForMiniMax board = checkPatterns winPatterns board"

definition isBoardFull :: "Board \<Rightarrow> bool" where
  "isBoardFull board = list_all (\<lambda>c. c \<noteq> None) board"

text \<open>
  The effect that runs after each move computes
  \<^verbatim>\<open>winner = checkWinnerForMiniMax(board); isDraw = !winner && isBoardFull(board)\<close>.
\<close>

definition isDraw :: "Board \<Rightarrow> bool" where
  "isDraw board = (checkWinnerForMiniMax board = None \<and> isBoardFull board)"

section \<open>Search engine\<close>

text \<open>
  \<open>minimax\<close> mutates the array it is given, so the model passes the board through every
  call and returns it with the score. The argument \<open>n\<close> is fuel: it bounds the nesting
  of the calls and the number of iterations of a loop, and \<open>None\<close> means that it ran
  out. \<open>maxLoop\<close> and \<open>minLoop\<close> are the two \<open>for\<close> loops of \<open>minimax\<close>, entered at
  index \<open>i\<close> with the running \<open>bestScore\<close>, \<open>alpha\<close> and \<open>beta\<close>; their first argument
  \<open>rec\<close> stands for the recursive call of \<open>minimax\<close>, and \<open>break\<close> returns from the loop.
\<close>

fun maxLoop :: "(Board \<Rightarrow> int \<Rightarrow> bool \<Rightarrow> Num \<Rightarrow> Num \<Rightarrow> (Num \<times> Board) option) \<Rightarrow> nat \<Rightarrow> nat \<Rightarrow> Board \<Rightarrow> int \<Rightarrow> Num \<Rightarrow> Num \<Rightarrow> Num \<Rightarrow> (Num \<times> Board) option" where
  "maxLoop rec 0 i board depth bestScore alpha beta = None"
| "maxLoop rec (Suc n) i board depth bestScore alpha beta =
     (if i < length board then
        (if cell board i = None then
           (case rec (setCell board i (Some PlayerX)) (depth + 1) False alpha beta of
              None \<Rightarrow> None
            | Some (score, board1) \<Rightarrow>
                (let board2 = setCell board1 i None;
                     bestScore2 = max score bestScore;
                     alpha2 = max alpha score
                 in if beta \<le> alpha2 then Some (bestScore2, board2)
                    else maxLoop rec n (i + 1) board2 depth bestScore2 alpha2 beta))
         else maxLoop rec n (i + 1) board depth bestScore alpha beta)
      else Some (bestScore, board))"

fun minLoop :: "(Board \<Rightarrow> int \<Rightarrow> bool \<Rightarrow> Num \<Rightarrow> Num \<Rightarrow> (Num \<times> Board) option) \<Rightarrow> nat \<Rightarrow> nat \<Rightarrow> Board \<Rightarrow> int \<Rightarrow> Num \<Rightarrow> Num \<Rightarrow> Num \<Rightarrow> (Num \<times> Board) option" where
  "minLoop rec 0 i board depth bestScore alpha beta = None"
| "minLoop rec (Suc n) i board depth bestScore alpha beta =
     (if i < length board then
        (if cell board i = None then
           (case rec (setCell board i (Some PlayerO)) (depth + 1) True alpha beta of
              None \<Rightarrow> None
            | Some (score, board1) \<Rightarrow>
                (let board2 = setCell board1 i None;
                     bestScore2 = min score bestScore;
                     beta2 = min beta score
                 in if beta2 \<le> alpha then Some (bestScore2, board2)
                    else minLoop rec n (i + 1) board2 depth bestScore2 alpha beta2))
         else minLoop rec n (i + 1) board depth bestScore alpha beta)
      else Some (bestScore, board))"

primrec minimax :: "nat \<Rightarrow> Board \<Rightarrow> int \<Rightarrow> bool \<Rightarrow> Num \<Rightarrow> Num \<Rightarrow> (Num \<times> Board) option" where
  "minimax 0 board depth isMaximizing alpha beta = None"
| "minimax (Suc n) board depth isMaximizing alpha beta =
     (let winner = checkWinnerForMiniMax board in
      if winner = Some PlayerX then Some (Fin (10 - depth), board)
      else if winner = Some PlayerO then Some (Fin (depth - 10), board)
      else if isBoardFull board then Some (Fin 0, board)
      else if isMaximizing then maxLoop (minimax n) n 0 board depth NegInf alpha beta
      else minLoop (minimax n) n 0 board depth PosInf alpha beta)"

text \<open>
  \<open>getBestMove\<close>: the loop over the cells with the running \<open>bestScore\<close> and \<open>bestMove\<close>
  (\<open>-1\<close> until a cell is chosen), then the function itself, which runs the loop and
  every call of \<open>minimax\<close> on the fuel \<open>n\<close>.
\<close>

fun bestLoop :: "(Board \<Rightarrow> int \<Rightarrow> bool \<Rightarrow> Num \<Rightarrow> Num \<Rightarrow> (Num \<times> Board) option) \<Rightarrow> nat \<Rightarrow> nat \<Rightarrow> Board \<Rightarrow> Num \<Rightarrow> int \<Rightarrow> (int \<times> Board) option" where
  "bestLoop rec 0 i board bestScore bestMove = None"
| "bestLoop rec (Suc n) i board bestScore bestMove =
     (if i < length board then
        (if cell board i = None then
           (case rec (setCell board i (Some PlayerX)) 0 False NegInf PosInf of
              None \<Rightarrow> None
            | Some (score, board1) \<Rightarrow>
                (let board2 = setCell board1 i None
                 in if bestScore < score then bestLoop rec n (i + 1) board2 score (int i)
                    else bestLoop rec n (i + 1) board2 bestScore bestMove))
         else bestLoop rec n (i + 1) board bestScore bestMove)
      else Some (bestMove, board))"

definition getBestMove :: "nat \<Rightarrow> Board \<Rightarrow> (int \<times> Board) option" where
  "getBestMove n board = bestLoop (minimax n) n 0 board NegInf (- 1)"

section \<open>Array writes stay in range\<close>

lemma setCell_in_range: "i < length board \<Longrightarrow> setCell board i v = board[i := v]"
  by (simp add: setCell_def)

lemma cell_in_range: "i < length board \<Longrightarrow> cell board i = board ! i"
  by (simp add: cell_def)

lemma setCell_undo:
  "i < length board \<Longrightarrow> board ! i = None \<Longrightarrow> setCell (setCell board i v) i None = board"
  by (simp add: setCell_def list_update_same_conv)

section \<open>The board is restored\<close>

lemma maxLoop_frame:
  assumes rec: "\<And>b d t a c v b'. rec b d t a c = Some (v, b') \<Longrightarrow> b' = b"
  shows "maxLoop rec n i board depth bestScore alpha beta = Some (v, board') \<Longrightarrow> board' = board"
proof (induction n arbitrary: i bestScore alpha)
  case 0
  then show ?case by simp
next
  case (Suc n)
  show ?case
  proof (cases "i < length board \<and> cell board i = None")
    case True
    then have inr: "i < length board" and emp: "board ! i = None"
      by (auto simp: cell_def)
    from Suc.prems True obtain s b1 where
      call: "rec (setCell board i (Some PlayerX)) (depth + 1) False alpha beta = Some (s, b1)"
      by (auto split: option.splits)
    from rec [OF call] have b1: "b1 = setCell board i (Some PlayerX)" .
    have undo: "setCell b1 i None = board"
      using inr emp by (simp add: b1 setCell_undo)
    from Suc.prems True call undo Suc.IH show ?thesis
      by (auto simp: Let_def split: if_splits)
  next
    case False
    with Suc.prems Suc.IH show ?thesis
      by (auto split: if_splits)
  qed
qed

lemma minLoop_frame:
  assumes rec: "\<And>b d t a c v b'. rec b d t a c = Some (v, b') \<Longrightarrow> b' = b"
  shows "minLoop rec n i board depth bestScore alpha beta = Some (v, board') \<Longrightarrow> board' = board"
proof (induction n arbitrary: i bestScore beta)
  case 0
  then show ?case by simp
next
  case (Suc n)
  show ?case
  proof (cases "i < length board \<and> cell board i = None")
    case True
    then have inr: "i < length board" and emp: "board ! i = None"
      by (auto simp: cell_def)
    from Suc.prems True obtain s b1 where
      call: "rec (setCell board i (Some PlayerO)) (depth + 1) True alpha beta = Some (s, b1)"
      by (auto split: option.splits)
    from rec [OF call] have b1: "b1 = setCell board i (Some PlayerO)" .
    have undo: "setCell b1 i None = board"
      using inr emp by (simp add: b1 setCell_undo)
    from Suc.prems True call undo Suc.IH show ?thesis
      by (auto simp: Let_def split: if_splits)
  next
    case False
    with Suc.prems Suc.IH show ?thesis
      by (auto split: if_splits)
  qed
qed

lemma minimax_frame:
  "minimax n board depth t alpha beta = Some (v, board') \<Longrightarrow> board' = board"
proof (induction n arbitrary: board depth t alpha beta v board')
  case 0
  then show ?case by simp
next
  case (Suc n)
  have rec: "\<And>b d t a c v b'. minimax n b d t a c = Some (v, b') \<Longrightarrow> b' = b"
    by (rule Suc.IH)
  have mx: "\<And>i b d s a c v b'. maxLoop (minimax n) n i b d s a c = Some (v, b') \<Longrightarrow> b' = b"
    using rec by (rule maxLoop_frame)
  have mn: "\<And>i b d s a c v b'. minLoop (minimax n) n i b d s a c = Some (v, b') \<Longrightarrow> b' = b"
    using rec by (rule minLoop_frame)
  from Suc.prems show ?case
    by (auto simp: Let_def split: if_splits dest: mx mn)
qed

lemma bestLoop_frame:
  assumes rec: "\<And>b d t a c v b'. rec b d t a c = Some (v, b') \<Longrightarrow> b' = b"
  shows "bestLoop rec n i board bestScore bestMove = Some (m, board') \<Longrightarrow> board' = board"
proof (induction n arbitrary: i bestScore bestMove)
  case 0
  then show ?case by simp
next
  case (Suc n)
  show ?case
  proof (cases "i < length board \<and> cell board i = None")
    case True
    then have inr: "i < length board" and emp: "board ! i = None"
      by (auto simp: cell_def)
    from Suc.prems True obtain s b1 where
      call: "rec (setCell board i (Some PlayerX)) 0 False NegInf PosInf = Some (s, b1)"
      by (auto split: option.splits)
    from rec [OF call] have b1: "b1 = setCell board i (Some PlayerX)" .
    have undo: "setCell b1 i None = board"
      using inr emp by (simp add: b1 setCell_undo)
    from Suc.prems True call undo Suc.IH show ?thesis
      by (auto simp: Let_def split: if_splits)
  next
    case False
    with Suc.prems Suc.IH show ?thesis
      by (auto split: if_splits)
  qed
qed

lemma getBestMove_frame: "getBestMove n board = Some (m, board') \<Longrightarrow> board' = board"
  unfolding getBestMove_def by (rule bestLoop_frame [OF minimax_frame])

section \<open>The search as a pure function\<close>

text \<open>
  Since every call restores the board, the score that \<open>minimax\<close> returns is a function
  of its arguments alone. \<open>score\<close>, \<open>scoreMax\<close> and \<open>scoreMin\<close> are \<open>minimax\<close> and its
  two loops without the fuel and without the returned board; \<open>minimax_score\<close> below
  shows that they compute what the search computes.
\<close>

definition emptyCount :: "Board \<Rightarrow> nat" where
  "emptyCount board = length (filter (\<lambda>c. c = None) board)"

lemma emptyCount_update:
  "i < length board \<Longrightarrow> board ! i = None \<Longrightarrow>
   emptyCount (board[i := Some p]) < emptyCount board"
proof (induction board arbitrary: i)
  case Nil
  then show ?case by simp
next
  case (Cons c cs)
  then show ?case
    by (cases i) (auto simp: emptyCount_def)
qed

lemma emptyCount_update_Suc:
  "i < length board \<Longrightarrow> board ! i = None \<Longrightarrow>
   Suc (emptyCount (board[i := Some p])) = emptyCount board"
proof (induction board arbitrary: i)
  case Nil
  then show ?case by simp
next
  case (Cons c cs)
  then show ?case
    by (cases i) (auto simp: emptyCount_def)
qed

lemma emptyCount_le_length: "emptyCount board \<le> length board"
  by (simp add: emptyCount_def)

function score :: "Board \<Rightarrow> int \<Rightarrow> bool \<Rightarrow> Num \<Rightarrow> Num \<Rightarrow> Num"
  and scoreMax :: "nat \<Rightarrow> Board \<Rightarrow> int \<Rightarrow> Num \<Rightarrow> Num \<Rightarrow> Num \<Rightarrow> Num"
  and scoreMin :: "nat \<Rightarrow> Board \<Rightarrow> int \<Rightarrow> Num \<Rightarrow> Num \<Rightarrow> Num \<Rightarrow> Num"
where
  "score board depth isMaximizing alpha beta =
     (if checkWinnerForMiniMax board = Some PlayerX then Fin (10 - depth)
      else if checkWinnerForMiniMax board = Some PlayerO then Fin (depth - 10)
      else if isBoardFull board then Fin 0
      else if isMaximizing then scoreMax 0 board depth NegInf alpha beta
      else scoreMin 0 board depth PosInf alpha beta)"
| "scoreMax i board depth bestScore alpha beta =
     (if i < length board then
        (if board ! i = None then
           (let s = score (board[i := Some PlayerX]) (depth + 1) False alpha beta
            in if beta \<le> max alpha s then max s bestScore
               else scoreMax (i + 1) board depth (max s bestScore) (max alpha s) beta)
         else scoreMax (i + 1) board depth bestScore alpha beta)
      else bestScore)"
| "scoreMin i board depth bestScore alpha beta =
     (if i < length board then
        (if board ! i = None then
           (let s = score (board[i := Some PlayerO]) (depth + 1) True alpha beta
            in if min beta s \<le> alpha then min s bestScore
               else scoreMin (i + 1) board depth (min s bestScore) alpha (min beta s))
         else scoreMin (i + 1) board depth bestScore alpha beta)
      else bestScore)"
  by pat_completeness auto
termination
  by (relation "measures
       [\<lambda>x. case x of Inl (b, _) \<Rightarrow> emptyCount b | Inr (Inl (_, b, _)) \<Rightarrow> emptyCount b
                     | Inr (Inr (_, b, _)) \<Rightarrow> emptyCount b,
        \<lambda>x. case x of Inl (b, _) \<Rightarrow> length b + 1 | Inr (Inl (i, b, _)) \<Rightarrow> length b - i
                     | Inr (Inr (i, b, _)) \<Rightarrow> length b - i]")
     (auto simp: emptyCount_update)

declare score.simps [simp del] scoreMax.simps [simp del] scoreMin.simps [simp del]

text \<open>The loop of \<open>getBestMove\<close>, on the pure score.\<close>

function bestFrom :: "nat \<Rightarrow> Board \<Rightarrow> Num \<Rightarrow> int \<Rightarrow> int" where
  "bestFrom i board bestScore bestMove =
     (if i < length board then
        (if board ! i = None then
           (let s = score (board[i := Some PlayerX]) 0 False NegInf PosInf
            in if bestScore < s then bestFrom (i + 1) board s (int i)
               else bestFrom (i + 1) board bestScore bestMove)
         else bestFrom (i + 1) board bestScore bestMove)
      else bestMove)"
  by pat_completeness auto
termination
  by (relation "measure (\<lambda>(i, b, _). length b - i)") auto

declare bestFrom.simps [simp del]

definition bestMove :: "Board \<Rightarrow> int" where
  "bestMove board = bestFrom 0 board NegInf (- 1)"

text \<open>Fuel that is enough for a board: every loop runs at most \<open>length board + 1\<close> times,
  and the calls nest at most \<open>emptyCount board + 1\<close> deep.\<close>

definition fuelFor :: "Board \<Rightarrow> nat" where
  "fuelFor board = length board + emptyCount board + 2"

lemma fuelFor_update:
  "i < length board \<Longrightarrow> board ! i = None \<Longrightarrow> fuelFor board \<le> Suc n \<Longrightarrow>
   fuelFor (board[i := Some p]) \<le> n"
  using emptyCount_update_Suc [of i board p] by (simp add: fuelFor_def)

lemma maxLoop_scoreMax:
  assumes rec: "\<And>j d t a c. j < length board \<Longrightarrow> board ! j = None \<Longrightarrow>
      rec (board[j := Some PlayerX]) d t a c
        = Some (score (board[j := Some PlayerX]) d t a c, board[j := Some PlayerX])"
  shows "length board - i < n \<Longrightarrow>
    maxLoop rec n i board depth bestScore alpha beta
      = Some (scoreMax i board depth bestScore alpha beta, board)"
proof (induction n arbitrary: i bestScore alpha)
  case 0
  then show ?case by simp
next
  case (Suc n)
  show ?case
  proof (cases "i < length board")
    case False
    then show ?thesis
      by (subst scoreMax.simps) simp
  next
    case inr: True
    then have fuel: "length board - (i + 1) < n"
      using Suc.prems by simp
    show ?thesis
    proof (cases "board ! i = None")
      case False
      then obtain p where occ: "board ! i = Some p"
        by auto
      from inr occ Suc.IH [OF fuel] show ?thesis
        by (subst scoreMax.simps) (simp add: cell_def)
    next
      case emp: True
      have same: "board[i := None] = board"
        using emp list_update_id [of board i] by simp
      show ?thesis
        using inr emp Suc.IH [OF fuel] rec [OF inr emp]
        by (subst scoreMax.simps) (simp add: cell_def setCell_in_range Let_def same)
    qed
  qed
qed

lemma minLoop_scoreMin:
  assumes rec: "\<And>j d t a c. j < length board \<Longrightarrow> board ! j = None \<Longrightarrow>
      rec (board[j := Some PlayerO]) d t a c
        = Some (score (board[j := Some PlayerO]) d t a c, board[j := Some PlayerO])"
  shows "length board - i < n \<Longrightarrow>
    minLoop rec n i board depth bestScore alpha beta
      = Some (scoreMin i board depth bestScore alpha beta, board)"
proof (induction n arbitrary: i bestScore beta)
  case 0
  then show ?case by simp
next
  case (Suc n)
  show ?case
  proof (cases "i < length board")
    case False
    then show ?thesis
      by (subst scoreMin.simps) simp
  next
    case inr: True
    then have fuel: "length board - (i + 1) < n"
      using Suc.prems by simp
    show ?thesis
    proof (cases "board ! i = None")
      case False
      then obtain p where occ: "board ! i = Some p"
        by auto
      from inr occ Suc.IH [OF fuel] show ?thesis
        by (subst scoreMin.simps) (simp add: cell_def)
    next
      case emp: True
      have same: "board[i := None] = board"
        using emp list_update_id [of board i] by simp
      show ?thesis
        using inr emp Suc.IH [OF fuel] rec [OF inr emp]
        by (subst scoreMin.simps) (simp add: cell_def setCell_in_range Let_def same)
    qed
  qed
qed

lemma minimax_score:
  "fuelFor board \<le> n \<Longrightarrow>
   minimax n board depth t alpha beta = Some (score board depth t alpha beta, board)"
proof (induction n arbitrary: board depth t alpha beta)
  case 0
  then show ?case by (simp add: fuelFor_def)
next
  case (Suc n)
  have loopfuel: "length board - 0 < n"
    using Suc.prems by (simp add: fuelFor_def)
  have rec: "\<And>j d t a c p. j < length board \<Longrightarrow> board ! j = None \<Longrightarrow>
      minimax n (board[j := Some p]) d t a c
        = Some (score (board[j := Some p]) d t a c, board[j := Some p])"
    using Suc.prems by (intro Suc.IH fuelFor_update)
  have mx: "maxLoop (minimax n) n 0 board depth NegInf alpha beta
      = Some (scoreMax 0 board depth NegInf alpha beta, board)"
    using rec loopfuel by (rule maxLoop_scoreMax)
  have mn: "minLoop (minimax n) n 0 board depth PosInf alpha beta
      = Some (scoreMin 0 board depth PosInf alpha beta, board)"
    using rec loopfuel by (rule minLoop_scoreMin)
  show ?case
    by (subst score.simps) (simp add: Let_def mx mn)
qed

lemma bestLoop_bestFrom:
  assumes rec: "\<And>j d t a c. j < length board \<Longrightarrow> board ! j = None \<Longrightarrow>
      rec (board[j := Some PlayerX]) d t a c
        = Some (score (board[j := Some PlayerX]) d t a c, board[j := Some PlayerX])"
  shows "length board - i < n \<Longrightarrow>
    bestLoop rec n i board s0 m0
      = Some (bestFrom i board s0 m0, board)"
proof (induction n arbitrary: i s0 m0)
  case 0
  then show ?case by simp
next
  case (Suc n)
  show ?case
  proof (cases "i < length board")
    case False
    then show ?thesis
      by (subst bestFrom.simps) simp
  next
    case inr: True
    then have fuel: "length board - (i + 1) < n"
      using Suc.prems by simp
    show ?thesis
    proof (cases "board ! i = None")
      case False
      then obtain p where occ: "board ! i = Some p"
        by auto
      from inr occ Suc.IH [OF fuel] show ?thesis
        by (subst bestFrom.simps) (simp add: cell_def)
    next
      case emp: True
      have same: "board[i := None] = board"
        using emp list_update_id [of board i] by simp
      show ?thesis
        using inr emp Suc.IH [OF fuel] rec [OF inr emp]
        by (subst bestFrom.simps) (simp add: cell_def setCell_in_range Let_def same)
    qed
  qed
qed

lemma getBestMove_bestMove:
  assumes "fuelFor board \<le> n"
  shows "getBestMove n board = Some (bestMove board, board)"
proof -
  have loopfuel: "length board - 0 < n"
    using assms by (simp add: fuelFor_def)
  have rec: "\<And>j d t a c. j < length board \<Longrightarrow> board ! j = None \<Longrightarrow>
      minimax n (board[j := Some PlayerX]) d t a c
        = Some (score (board[j := Some PlayerX]) d t a c, board[j := Some PlayerX])"
  proof (rule minimax_score)
    fix j assume "j < length board" "board ! j = None"
    then have "fuelFor (board[j := Some PlayerX]) \<le> n"
      using assms fuelFor_update [of j board n PlayerX] by simp
    then show "fuelFor (board[j := Some PlayerX]) \<le> n" .
  qed
  show ?thesis
    unfolding getBestMove_def bestMove_def using rec loopfuel by (rule bestLoop_bestFrom)
qed

section \<open>Completed triples\<close>

text \<open>\<open>hasLine p board\<close>: one of the eight triples holds three marks of player \<open>p\<close>.\<close>

definition lineOf :: "Player \<Rightarrow> Board \<Rightarrow> nat \<times> nat \<times> nat \<Rightarrow> bool" where
  "lineOf p board l =
     (case l of (a, b, c) \<Rightarrow>
        cell board a = Some p \<and> cell board b = Some p \<and> cell board c = Some p)"

definition hasLine :: "Player \<Rightarrow> Board \<Rightarrow> bool" where
  "hasLine p board = list_ex (lineOf p board) winPatterns"

lemma checkPatterns_Some:
  "checkPatterns ps board = Some p \<Longrightarrow> \<exists>l \<in> set ps. lineOf p board l"
  by (induction ps board rule: checkPatterns.induct)
     (auto simp: lineOf_def split: if_splits)

lemma checkPatterns_None:
  "checkPatterns ps board = None \<longleftrightarrow> (\<forall>l \<in> set ps. \<forall>p. \<not> lineOf p board l)"
  by (induction ps board rule: checkPatterns.induct)
     (auto simp: lineOf_def split: if_splits)

lemma checkWinner_Some_hasLine:
  "checkWinnerForMiniMax board = Some p \<Longrightarrow> hasLine p board"
  unfolding checkWinnerForMiniMax_def hasLine_def list_ex_iff
  by (rule checkPatterns_Some)

lemma checkWinner_None_iff:
  "checkWinnerForMiniMax board = None \<longleftrightarrow> (\<forall>p. \<not> hasLine p board)"
  unfolding checkWinnerForMiniMax_def hasLine_def list_ex_iff checkPatterns_None
  by blast

lemma checkWinner_only:
  assumes "hasLine p board" and "\<And>q. q \<noteq> p \<Longrightarrow> \<not> hasLine q board"
  shows "checkWinnerForMiniMax board = Some p"
proof (cases "checkWinnerForMiniMax board")
  case None
  with assms(1) show ?thesis
    by (simp add: checkWinner_None_iff)
next
  case (Some q)
  then have "hasLine q board"
    by (rule checkWinner_Some_hasLine)
  with assms(2) have "q = p"
    by blast
  with Some show ?thesis
    by simp
qed

text \<open>A mark placed on an empty cell completes no triple of the other player, and
  only triples through that cell.\<close>

lemma cell_update:
  "i < length board \<Longrightarrow> cell (board[i := v]) j = (if j = i then v else cell board j)"
  by (simp add: cell_def)

lemma lineOf_update_other:
  assumes "i < length board" "board ! i = None" "q \<noteq> p"
  shows "lineOf q (board[i := Some p]) l \<longleftrightarrow> lineOf q board l"
proof -
  obtain a b c where l: "l = (a, b, c)"
    by (cases l)
  have "cell board i = None"
    using assms(1,2) by (simp add: cell_def)
  then show ?thesis
    using assms(1,3) by (auto simp: l lineOf_def cell_update)
qed

lemma hasLine_update_other:
  assumes "i < length board" "board ! i = None" "q \<noteq> p"
  shows "hasLine q (board[i := Some p]) \<longleftrightarrow> hasLine q board"
  unfolding hasLine_def list_ex_iff
  using lineOf_update_other [OF assms] by simp

lemma lineOf_mono:
  assumes "i < length board" "board ! i = None" "lineOf q board l"
  shows "lineOf q (board[i := v]) l"
proof -
  obtain a b c where l: "l = (a, b, c)"
    by (cases l)
  have "cell board i = None"
    using assms(1,2) by (simp add: cell_def)
  then show ?thesis
    using assms(1,3) by (auto simp: l lineOf_def cell_update)
qed

lemma hasLine_mono:
  assumes "i < length board" "board ! i = None" "hasLine q board"
  shows "hasLine q (board[i := v])"
  using assms(3) lineOf_mono [OF assms(1,2)]
  unfolding hasLine_def list_ex_iff by blast

lemma isBoardFull_iff: "isBoardFull board \<longleftrightarrow> (\<forall>i < length board. board ! i \<noteq> None)"
  by (simp add: isBoardFull_def list_all_length)

section \<open>Reachable positions\<close>

text \<open>
  The game starts from nine empty cells with \<open>X\<close> to move (\<open>currentPlayer: "X"\<close>). A move
  is made only while there is no winner and no draw (\<open>makeAIMove\<close>, \<open>handleCellClick\<close>),
  on an empty cell, and passes the turn to the other player. \<open>reachable board p\<close>: the
  board can arise in a game, with \<open>p\<close> to move.
\<close>

inductive reachable :: "Board \<Rightarrow> Player \<Rightarrow> bool" where
  start: "reachable (replicate 9 None) PlayerX"
| moveX: "reachable board PlayerX \<Longrightarrow> checkWinnerForMiniMax board = None \<Longrightarrow>
          \<not> isDraw board \<Longrightarrow> i < length board \<Longrightarrow> board ! i = None \<Longrightarrow>
          reachable (board[i := Some PlayerX]) PlayerO"
| moveO: "reachable board PlayerO \<Longrightarrow> checkWinnerForMiniMax board = None \<Longrightarrow>
          \<not> isDraw board \<Longrightarrow> i < length board \<Longrightarrow> board ! i = None \<Longrightarrow>
          reachable (board[i := Some PlayerO]) PlayerX"

lemma reachable_length: "reachable board p \<Longrightarrow> length board = 9"
  by (induction rule: reachable.induct) simp_all

lemma reachable_one_winner:
  "reachable board p \<Longrightarrow> \<not> (hasLine PlayerX board \<and> hasLine PlayerO board)"
proof (induction rule: reachable.induct)
  case start
  show ?case
    by (simp add: hasLine_def winPatterns_def lineOf_def cell_def)
next
  case (moveX board i)
  then have "\<not> hasLine PlayerO board"
    by (simp add: checkWinner_None_iff)
  then have "\<not> hasLine PlayerO (board[i := Some PlayerX])"
    using moveX.hyps by (simp add: hasLine_update_other)
  then show ?case
    by simp
next
  case (moveO board i)
  then have "\<not> hasLine PlayerX board"
    by (simp add: checkWinner_None_iff)
  then have "\<not> hasLine PlayerX (board[i := Some PlayerO])"
    using moveO.hyps by (simp add: hasLine_update_other)
  then show ?case
    by simp
qed

lemma reachable_winner_iff:
  assumes "reachable board p"
  shows "checkWinnerForMiniMax board = Some q \<longleftrightarrow> hasLine q board"
proof
  assume "checkWinnerForMiniMax board = Some q"
  then show "hasLine q board"
    by (rule checkWinner_Some_hasLine)
next
  assume q: "hasLine q board"
  have "\<And>r. r \<noteq> q \<Longrightarrow> \<not> hasLine r board"
  proof -
    fix r :: Player
    assume "r \<noteq> q"
    then have "(q = PlayerX \<and> r = PlayerO) \<or> (q = PlayerO \<and> r = PlayerX)"
      by (cases q; cases r) simp_all
    with q reachable_one_winner [OF assms] show "\<not> hasLine r board"
      by blast
  qed
  with q show "checkWinnerForMiniMax board = Some q"
    by (rule checkWinner_only)
qed

section \<open>Plain minimax\<close>

text \<open>
  The search without the bounds: \<open>plainMinimax\<close> has the base cases of \<open>minimax\<close> and
  explores every empty cell in increasing order, maximising for \<open>X\<close> and minimising for
  \<open>O\<close>; there is no \<open>alpha\<close>, no \<open>beta\<close> and no \<open>break\<close>. \<open>plainBestMove\<close> is \<open>getBestMove\<close>
  on these scores.
\<close>

function plainMinimax :: "Board \<Rightarrow> int \<Rightarrow> bool \<Rightarrow> Num"
  and plainMaxLoop :: "nat \<Rightarrow> Board \<Rightarrow> int \<Rightarrow> Num \<Rightarrow> Num"
  and plainMinLoop :: "nat \<Rightarrow> Board \<Rightarrow> int \<Rightarrow> Num \<Rightarrow> Num"
where
  "plainMinimax board depth isMaximizing =
     (if checkWinnerForMiniMax board = Some PlayerX then Fin (10 - depth)
      else if checkWinnerForMiniMax board = Some PlayerO then Fin (depth - 10)
      else if isBoardFull board then Fin 0
      else if isMaximizing then plainMaxLoop 0 board depth NegInf
      else plainMinLoop 0 board depth PosInf)"
| "plainMaxLoop i board depth bestScore =
     (if i < length board then
        (if board ! i = None then
           plainMaxLoop (i + 1) board depth
             (max (plainMinimax (board[i := Some PlayerX]) (depth + 1) False) bestScore)
         else plainMaxLoop (i + 1) board depth bestScore)
      else bestScore)"
| "plainMinLoop i board depth bestScore =
     (if i < length board then
        (if board ! i = None then
           plainMinLoop (i + 1) board depth
             (min (plainMinimax (board[i := Some PlayerO]) (depth + 1) True) bestScore)
         else plainMinLoop (i + 1) board depth bestScore)
      else bestScore)"
  by pat_completeness auto
termination
  by (relation "measures
       [\<lambda>x. case x of Inl (b, _) \<Rightarrow> emptyCount b | Inr (Inl (_, b, _)) \<Rightarrow> emptyCount b
                     | Inr (Inr (_, b, _)) \<Rightarrow> emptyCount b,
        \<lambda>x. case x of Inl (b, _) \<Rightarrow> length b + 1 | Inr (Inl (i, b, _)) \<Rightarrow> length b - i
                     | Inr (Inr (i, b, _)) \<Rightarrow> length b - i]")
     (auto simp: emptyCount_update)

declare plainMinimax.simps [simp del] plainMaxLoop.simps [simp del]
  plainMinLoop.simps [simp del]

function plainBestFrom :: "nat \<Rightarrow> Board \<Rightarrow> Num \<Rightarrow> int \<Rightarrow> int" where
  "plainBestFrom i board bestScore m =
     (if i < length board then
        (if board ! i = None then
           (let s = plainMinimax (board[i := Some PlayerX]) 0 False
            in if bestScore < s then plainBestFrom (i + 1) board s (int i)
               else plainBestFrom (i + 1) board bestScore m)
         else plainBestFrom (i + 1) board bestScore m)
      else m)"
  by pat_completeness auto
termination
  by (relation "measure (\<lambda>(i, b, _). length b - i)") auto

declare plainBestFrom.simps [simp del]

definition plainBestMove :: "Board \<Rightarrow> int" where
  "plainBestMove board = plainBestFrom 0 board NegInf (- 1)"

section \<open>Pruning does not change the score\<close>

lemma PosInf_greatest [simp]: "x \<le> PosInf"
  by (cases x) simp_all

lemma max_NegInf [simp]: "max x NegInf = x" "max NegInf x = x"
  by (cases x; simp add: max_def)+

lemma min_PosInf [simp]: "min x PosInf = x" "min PosInf x = x"
  by (cases x; simp add: min_def)+

lemma plainMaxLoop_max:
  "plainMaxLoop i board depth bestScore = max bestScore (plainMaxLoop i board depth NegInf)"
proof (induction "length board - i" arbitrary: i bestScore)
  case 0
  then show ?case
    by (subst (1 2) plainMaxLoop.simps) simp
next
  case (Suc k)
  then have inr: "i < length board" and k: "k = length board - (i + 1)"
    by simp_all
  show ?case
  proof (cases "board ! i = None")
    case True
    show ?thesis
      using inr True Suc.hyps(1) [OF k, of "max (plainMinimax (board[i := Some PlayerX]) (depth + 1) False) bestScore"]
        Suc.hyps(1) [OF k, of "plainMinimax (board[i := Some PlayerX]) (depth + 1) False"]
      by (subst (1 2) plainMaxLoop.simps) (simp add: max.assoc max.commute max.left_commute)
  next
    case False
    then obtain p where "board ! i = Some p"
      by auto
    then show ?thesis
      using inr Suc.hyps(1) [OF k, of bestScore]
      by (subst (1 2) plainMaxLoop.simps) simp
  qed
qed

lemma plainMinLoop_min:
  "plainMinLoop i board depth bestScore = min bestScore (plainMinLoop i board depth PosInf)"
proof (induction "length board - i" arbitrary: i bestScore)
  case 0
  then show ?case
    by (subst (1 2) plainMinLoop.simps) simp
next
  case (Suc k)
  then have inr: "i < length board" and k: "k = length board - (i + 1)"
    by simp_all
  show ?case
  proof (cases "board ! i = None")
    case True
    show ?thesis
      using inr True Suc.hyps(1) [OF k, of "min (plainMinimax (board[i := Some PlayerO]) (depth + 1) True) bestScore"]
        Suc.hyps(1) [OF k, of "plainMinimax (board[i := Some PlayerO]) (depth + 1) True"]
      by (subst (1 2) plainMinLoop.simps) (simp add: min.assoc min.commute min.left_commute)
  next
    case False
    then obtain p where "board ! i = Some p"
      by auto
    then show ?thesis
      using inr Suc.hyps(1) [OF k, of bestScore]
      by (subst (1 2) plainMinLoop.simps) simp
  qed
qed

text \<open>
  \<open>agrees alpha beta x v\<close>: the returned score \<open>v\<close> determines the true score \<open>x\<close> as far
  as the window needs it. Inside the window it is exact; at or below \<open>alpha\<close> it is an
  upper bound, at or above \<open>beta\<close> a lower bound.
\<close>

definition agrees :: "Num \<Rightarrow> Num \<Rightarrow> Num \<Rightarrow> Num \<Rightarrow> bool" where
  "agrees alpha beta x v =
     ((v \<le> alpha \<longrightarrow> x \<le> v) \<and> (alpha < v \<and> v < beta \<longrightarrow> x = v) \<and> (beta \<le> v \<longrightarrow> v \<le> x))"

lemma agrees_full: "agrees NegInf PosInf x v \<Longrightarrow> v = x"
  by (cases v; cases x) (auto simp: agrees_def less_Num_def)

lemma agrees_refl: "agrees alpha beta x x"
  by (simp add: agrees_def)

lemma agrees_max_cut:
  assumes "bestScore \<le> alpha" "alpha < beta" "agrees alpha beta x s" "beta \<le> max alpha s"
  shows "agrees alpha beta (max (max x bestScore) r) (max s bestScore) \<and> bestScore \<le> max s bestScore"
proof -
  from assms(2,4) have s: "beta \<le> s"
    by (auto simp: le_max_iff_disj)
  with assms(3) have x: "s \<le> x"
    by (auto simp: agrees_def)
  from s assms(1,2) have b: "max s bestScore = s"
    by (auto simp: max_def)
  from x have "s \<le> max (max x bestScore) r"
    by (auto simp: le_max_iff_disj)
  with s assms(1,2) show ?thesis
    by (auto simp: b agrees_def)
qed

lemma agrees_max_step:
  assumes "bestScore \<le> alpha" "alpha < beta" "agrees alpha beta x s" "\<not> beta \<le> max alpha s"
    and "agrees (max alpha s) beta (max (max s bestScore) r) v" "max s bestScore \<le> v"
  shows "agrees alpha beta (max (max x bestScore) r) v \<and> bestScore \<le> v"
proof -
  from assms(4) have sb: "s < beta"
    by (auto simp: not_le)
  from assms(6) have bv: "bestScore \<le> v" and sv: "s \<le> v"
    by auto
  show ?thesis
  proof (cases "s \<le> alpha")
    case True
    then have m: "max alpha s = alpha"
      by (auto simp: max_def)
    from True assms(3) have xs: "x \<le> s"
      by (auto simp: agrees_def)
    have xa: "max x bestScore \<le> alpha" and sa: "max s bestScore \<le> alpha"
      using xs True assms(1) by auto
    have "agrees alpha beta (max (max x bestScore) r) v"
      unfolding agrees_def
    proof (intro conjI impI)
      assume "v \<le> alpha"
      with assms(5) have "max (max s bestScore) r \<le> v"
        by (auto simp: m agrees_def)
      with xs show "max (max x bestScore) r \<le> v"
        by auto
    next
      assume v: "alpha < v \<and> v < beta"
      with assms(5) have "max (max s bestScore) r = v"
        by (auto simp: m agrees_def)
      with sa v have "r = v"
        by (metis max_def not_le)
      with xa v show "max (max x bestScore) r = v"
        by (auto simp: max_def)
    next
      assume v: "beta \<le> v"
      with assms(5) have "v \<le> max (max s bestScore) r"
        by (auto simp: m agrees_def)
      with sa v assms(2) have "v \<le> r"
        by (metis le_max_iff_disj not_le order_trans)
      then show "v \<le> max (max x bestScore) r"
        by (auto simp: le_max_iff_disj)
    qed
    with bv show ?thesis
      by auto
  next
    case False
    then have as: "alpha < s"
      by auto
    then have m: "max alpha s = s"
      by (auto simp: max_def)
    from as sb assms(3) have xs: "x = s"
      by (auto simp: agrees_def)
    have ms: "s \<le> max (max s bestScore) r"
      by (auto simp: le_max_iff_disj)
    have "agrees alpha beta (max (max x bestScore) r) v"
      unfolding agrees_def xs
    proof (intro conjI impI)
      assume "v \<le> alpha"
      with as sv show "max (max s bestScore) r \<le> v"
        by auto
    next
      assume v: "alpha < v \<and> v < beta"
      show "max (max s bestScore) r = v"
      proof (cases "v \<le> s")
        case True
        with assms(5) have "max (max s bestScore) r \<le> v"
          by (auto simp: m agrees_def)
        with ms sv True show ?thesis
          by auto
      next
        case False
        with v assms(5) show ?thesis
          by (auto simp: m agrees_def)
      qed
    next
      assume "beta \<le> v"
      with assms(5) show "v \<le> max (max s bestScore) r"
        by (auto simp: agrees_def)
    qed
    with bv show ?thesis
      by auto
  qed
qed


lemma agrees_min_cut:
  assumes "beta \<le> bestScore" "alpha < beta" "agrees alpha beta x s" "min beta s \<le> alpha"
  shows "agrees alpha beta (min (min x bestScore) r) (min s bestScore) \<and> min s bestScore \<le> bestScore"
proof -
  from assms(2,4) have s: "s \<le> alpha"
    by (auto simp: min_le_iff_disj)
  with assms(3) have x: "x \<le> s"
    by (auto simp: agrees_def)
  from s assms(1,2) have b: "min s bestScore = s"
    by (auto simp: min_def)
  from x have "min (min x bestScore) r \<le> s"
    by (auto simp: min_le_iff_disj)
  with s assms(1,2) show ?thesis
    by (auto simp: b agrees_def)
qed

lemma agrees_min_step:
  assumes "beta \<le> bestScore" "alpha < beta" "agrees alpha beta x s" "\<not> min beta s \<le> alpha"
    and "agrees alpha (min beta s) (min (min s bestScore) r) v" "v \<le> min s bestScore"
  shows "agrees alpha beta (min (min x bestScore) r) v \<and> v \<le> bestScore"
proof -
  from assms(4) have sa: "alpha < s"
    by (auto simp: not_le)
  from assms(6) have bv: "v \<le> bestScore" and sv: "v \<le> s"
    by auto
  show ?thesis
  proof (cases "beta \<le> s")
    case True
    then have m: "min beta s = beta"
      by (auto simp: min_def)
    from True assms(3) have xs: "s \<le> x"
      by (auto simp: agrees_def)
    have xb: "beta \<le> min x bestScore" and sb: "beta \<le> min s bestScore"
      using xs True assms(1) by auto
    have "agrees alpha beta (min (min x bestScore) r) v"
      unfolding agrees_def
    proof (intro conjI impI)
      assume "beta \<le> v"
      with assms(5) have "v \<le> min (min s bestScore) r"
        by (auto simp: m agrees_def)
      with xs show "v \<le> min (min x bestScore) r"
        by auto
    next
      assume v: "alpha < v \<and> v < beta"
      with assms(5) have "min (min s bestScore) r = v"
        by (auto simp: m agrees_def)
      with sb v have "r = v"
        by (metis min_def not_le)
      with xb v show "min (min x bestScore) r = v"
        by (auto simp: min_def)
    next
      assume v: "v \<le> alpha"
      with assms(5) have "min (min s bestScore) r \<le> v"
        by (auto simp: m agrees_def)
      with sb v assms(2) have "r \<le> v"
        by (metis min_le_iff_disj not_le order_trans)
      then show "min (min x bestScore) r \<le> v"
        by (auto simp: min_le_iff_disj)
    qed
    with bv show ?thesis
      by auto
  next
    case False
    then have bs: "s < beta"
      by auto
    then have m: "min beta s = s"
      by (auto simp: min_def)
    from bs sa assms(3) have xs: "x = s"
      by (auto simp: agrees_def)
    have ms: "min (min s bestScore) r \<le> s"
      by (auto simp: min_le_iff_disj)
    have "agrees alpha beta (min (min x bestScore) r) v"
      unfolding agrees_def xs
    proof (intro conjI impI)
      assume "beta \<le> v"
      with bs sv show "v \<le> min (min s bestScore) r"
        by auto
    next
      assume v: "alpha < v \<and> v < beta"
      show "min (min s bestScore) r = v"
      proof (cases "s \<le> v")
        case True
        with assms(5) have "v \<le> min (min s bestScore) r"
          by (auto simp: m agrees_def)
        with ms sv True show ?thesis
          by auto
      next
        case False
        with v assms(5) show ?thesis
          by (auto simp: m agrees_def)
      qed
    next
      assume "v \<le> alpha"
      with assms(5) show "min (min s bestScore) r \<le> v"
        by (auto simp: agrees_def)
    qed
    with bv show ?thesis
      by auto
  qed
qed


lemma score_agrees:
  "alpha < beta \<Longrightarrow>
     agrees alpha beta (plainMinimax board depth t) (score board depth t alpha beta)"
  "bestScore \<le> alpha \<Longrightarrow> alpha < beta \<Longrightarrow>
     agrees alpha beta (plainMaxLoop i board depth bestScore)
       (scoreMax i board depth bestScore alpha beta)
     \<and> bestScore \<le> scoreMax i board depth bestScore alpha beta"
  "beta \<le> bestScore \<Longrightarrow> alpha < beta \<Longrightarrow>
     agrees alpha beta (plainMinLoop i board depth bestScore)
       (scoreMin i board depth bestScore alpha beta)
     \<and> scoreMin i board depth bestScore alpha beta \<le> bestScore"
proof (induction board depth t alpha beta and i board depth bestScore alpha beta
    and i board depth bestScore alpha beta rule: score_scoreMax_scoreMin.induct)
  case (1 board depth t alpha beta)
  show ?case
  proof (cases "checkWinnerForMiniMax board = Some PlayerX
      \<or> checkWinnerForMiniMax board = Some PlayerO \<or> isBoardFull board")
    case True
    then have "score board depth t alpha beta = plainMinimax board depth t"
      by (subst score.simps, subst plainMinimax.simps) auto
    then show ?thesis
      by (simp add: agrees_refl)
  next
    case False
    show ?thesis
    proof (cases t)
      case True
      with False "1.IH"(1) "1.prems" show ?thesis
        by (subst score.simps, subst plainMinimax.simps) simp
    next
      case nt: False
      with False "1.IH"(2) "1.prems" show ?thesis
        by (subst score.simps, subst plainMinimax.simps) simp
    qed
  qed
next
  case (2 i board depth bestScore alpha beta)
  show ?case
  proof (cases "i < length board")
    case False
    then show ?thesis
      by (subst (1 2) scoreMax.simps, subst plainMaxLoop.simps) (simp add: agrees_refl)
  next
    case inr: True
    show ?thesis
    proof (cases "board ! i = None")
      case False
      then obtain p where occ: "board ! i = Some p"
        by auto
      from occ have ne: "board ! i \<noteq> None"
        by simp
      from "2.IH"(3) [OF inr ne "2.prems"] inr occ show ?thesis
        by (subst (1 2) scoreMax.simps, subst plainMaxLoop.simps) simp
    next
      case emp: True
      let ?x = "plainMinimax (board[i := Some PlayerX]) (depth + 1) False"
      let ?s = "score (board[i := Some PlayerX]) (depth + 1) False alpha beta"
      let ?r = "plainMaxLoop (i + 1) board depth NegInf"
      have xs: "agrees alpha beta ?x ?s"
        using "2.IH"(1) [OF inr emp] "2.prems" by simp
      have plain: "plainMaxLoop i board depth bestScore = max (max ?x bestScore) ?r"
        using inr emp plainMaxLoop_max [of "i + 1" board depth "max ?x bestScore"]
        by (subst plainMaxLoop.simps) simp
      show ?thesis
      proof (cases "beta \<le> max alpha ?s")
        case True
        then have "scoreMax i board depth bestScore alpha beta = max ?s bestScore"
          using inr emp by (subst scoreMax.simps) (simp add: Let_def)
        then show ?thesis
          using agrees_max_cut [OF "2.prems" xs True, of ?r] by (simp add: plain)
      next
        case False
        have le: "max ?s bestScore \<le> max alpha ?s"
          using "2.prems"(1) by (auto simp: le_max_iff_disj)
        have lt: "max alpha ?s < beta"
          using False by (auto simp: not_le)
        have sm: "scoreMax i board depth bestScore alpha beta
            = scoreMax (i + 1) board depth (max ?s bestScore) (max alpha ?s) beta"
          using inr emp False by (subst scoreMax.simps) (simp add: Let_def)
        have ih: "agrees (max alpha ?s) beta (max (max ?s bestScore) ?r)
              (scoreMax (i + 1) board depth (max ?s bestScore) (max alpha ?s) beta)
            \<and> max ?s bestScore \<le> scoreMax (i + 1) board depth (max ?s bestScore) (max alpha ?s) beta"
          using "2.IH"(2) [OF inr emp refl False le lt]
            plainMaxLoop_max [of "i + 1" board depth "max ?s bestScore"]
          by simp
        show ?thesis
          using agrees_max_step [OF "2.prems" xs False] ih by (simp add: plain sm)
      qed
    qed
  qed
next
  case (3 i board depth bestScore alpha beta)
  show ?case
  proof (cases "i < length board")
    case False
    then show ?thesis
      by (subst (1 2) scoreMin.simps, subst plainMinLoop.simps) (simp add: agrees_refl)
  next
    case inr: True
    show ?thesis
    proof (cases "board ! i = None")
      case False
      then obtain p where occ: "board ! i = Some p"
        by auto
      from occ have ne: "board ! i \<noteq> None"
        by simp
      from "3.IH"(3) [OF inr ne "3.prems"] inr occ show ?thesis
        by (subst (1 2) scoreMin.simps, subst plainMinLoop.simps) simp
    next
      case emp: True
      let ?x = "plainMinimax (board[i := Some PlayerO]) (depth + 1) True"
      let ?s = "score (board[i := Some PlayerO]) (depth + 1) True alpha beta"
      let ?r = "plainMinLoop (i + 1) board depth PosInf"
      have xs: "agrees alpha beta ?x ?s"
        using "3.IH"(1) [OF inr emp] "3.prems" by simp
      have plain: "plainMinLoop i board depth bestScore = min (min ?x bestScore) ?r"
        using inr emp plainMinLoop_min [of "i + 1" board depth "min ?x bestScore"]
        by (subst plainMinLoop.simps) simp
      show ?thesis
      proof (cases "min beta ?s \<le> alpha")
        case True
        then have "scoreMin i board depth bestScore alpha beta = min ?s bestScore"
          using inr emp by (subst scoreMin.simps) (simp add: Let_def)
        then show ?thesis
          using agrees_min_cut [OF "3.prems" xs True, of ?r] by (simp add: plain)
      next
        case False
        have le: "min beta ?s \<le> min ?s bestScore"
          using "3.prems"(1) by (auto simp: min_le_iff_disj)
        have lt: "alpha < min beta ?s"
          using False by (auto simp: not_le)
        have sm: "scoreMin i board depth bestScore alpha beta
            = scoreMin (i + 1) board depth (min ?s bestScore) alpha (min beta ?s)"
          using inr emp False by (subst scoreMin.simps) (simp add: Let_def)
        have ih: "agrees alpha (min beta ?s) (min (min ?s bestScore) ?r)
              (scoreMin (i + 1) board depth (min ?s bestScore) alpha (min beta ?s))
            \<and> scoreMin (i + 1) board depth (min ?s bestScore) alpha (min beta ?s) \<le> min ?s bestScore"
          using "3.IH"(2) [OF inr emp refl False le lt]
            plainMinLoop_min [of "i + 1" board depth "min ?s bestScore"]
          by simp
        show ?thesis
          using agrees_min_step [OF "3.prems" xs False] ih by (simp add: plain sm)
      qed
    qed
  qed
qed

lemma score_plain: "score board depth t NegInf PosInf = plainMinimax board depth t"
proof -
  have "NegInf < PosInf"
    by (simp add: less_Num_def)
  then show ?thesis
    by (rule agrees_full [OF score_agrees(1)])
qed

lemma bestFrom_plain: "bestFrom i board s0 m0 = plainBestFrom i board s0 m0"
proof (induction i board s0 m0 rule: bestFrom.induct)
  case (1 i board bestScore m)
  show ?case
  proof (cases "i < length board")
    case False
    then show ?thesis
      by (subst bestFrom.simps, subst plainBestFrom.simps) simp
  next
    case inr: True
    show ?thesis
    proof (cases "board ! i = None")
      case False
      then obtain p where occ: "board ! i = Some p"
        by auto
      from occ have ne: "board ! i \<noteq> None"
        by simp
      from "1.IH"(3) [OF inr ne] inr occ show ?thesis
        by (subst bestFrom.simps, subst plainBestFrom.simps) simp
    next
      case emp: True
      from "1.IH"(1) [OF inr emp refl] "1.IH"(2) [OF inr emp refl] inr emp show ?thesis
        by (subst bestFrom.simps, subst plainBestFrom.simps) (simp add: Let_def score_plain)
    qed
  qed
qed

lemma bestMove_plain: "bestMove board = plainBestMove board"
  by (simp add: bestMove_def plainBestMove_def bestFrom_plain)

section \<open>The loops of plain minimax as maximum and minimum over the empty cells\<close>

lemma plainMaxLoop_ge_best: "bestScore \<le> plainMaxLoop i board depth bestScore"
  by (subst plainMaxLoop_max) simp

lemma plainMinLoop_le_best: "plainMinLoop i board depth bestScore \<le> bestScore"
  by (subst plainMinLoop_min) simp

lemma plainMaxLoop_mono:
  "s \<le> s' \<Longrightarrow> plainMaxLoop i board depth s \<le> plainMaxLoop i board depth s'"
  by (subst (1 2) plainMaxLoop_max) (auto simp: le_max_iff_disj)

lemma plainMinLoop_mono:
  "s \<le> s' \<Longrightarrow> plainMinLoop i board depth s \<le> plainMinLoop i board depth s'"
  by (subst (1 2) plainMinLoop_min) (auto simp: min_le_iff_disj)

lemma plainMaxLoop_ge_child:
  "i \<le> j \<Longrightarrow> j < length board \<Longrightarrow> board ! j = None \<Longrightarrow>
   plainMinimax (board[j := Some PlayerX]) (depth + 1) False
     \<le> plainMaxLoop i board depth bestScore"
proof (induction "length board - i" arbitrary: i bestScore)
  case 0
  then show ?case by simp
next
  case (Suc k)
  then have inr: "i < length board" and k: "k = length board - (i + 1)"
    by simp_all
  show ?case
  proof (cases "j = i")
    case True
    have "plainMinimax (board[i := Some PlayerX]) (depth + 1) False
        \<le> max (plainMinimax (board[i := Some PlayerX]) (depth + 1) False) bestScore"
      by simp
    also have "\<dots> \<le> plainMaxLoop (i + 1) board depth
        (max (plainMinimax (board[i := Some PlayerX]) (depth + 1) False) bestScore)"
      by (rule plainMaxLoop_ge_best)
    also have "\<dots> = plainMaxLoop i board depth bestScore"
      using inr Suc.prems(3) True by (subst (2) plainMaxLoop.simps) simp
    finally show ?thesis
      using True by simp
  next
    case False
    then have ij: "i + 1 \<le> j"
      using Suc.prems(1) by simp
    show ?thesis
    proof (cases "board ! i = None")
      case True
      with inr Suc.hyps(1) [OF k ij Suc.prems(2,3)] show ?thesis
        by (subst plainMaxLoop.simps) simp
    next
      case False
      then obtain p where "board ! i = Some p"
        by auto
      with inr Suc.hyps(1) [OF k ij Suc.prems(2,3)] show ?thesis
        by (subst plainMaxLoop.simps) simp
    qed
  qed
qed

lemma plainMinLoop_le_child:
  "i \<le> j \<Longrightarrow> j < length board \<Longrightarrow> board ! j = None \<Longrightarrow>
   plainMinLoop i board depth bestScore
     \<le> plainMinimax (board[j := Some PlayerO]) (depth + 1) True"
proof (induction "length board - i" arbitrary: i bestScore)
  case 0
  then show ?case by simp
next
  case (Suc k)
  then have inr: "i < length board" and k: "k = length board - (i + 1)"
    by simp_all
  show ?case
  proof (cases "j = i")
    case True
    have "plainMinLoop i board depth bestScore = plainMinLoop (i + 1) board depth
        (min (plainMinimax (board[i := Some PlayerO]) (depth + 1) True) bestScore)"
      using inr Suc.prems(3) True by (subst plainMinLoop.simps) simp
    also have "\<dots> \<le> min (plainMinimax (board[i := Some PlayerO]) (depth + 1) True) bestScore"
      by (rule plainMinLoop_le_best)
    also have "\<dots> \<le> plainMinimax (board[i := Some PlayerO]) (depth + 1) True"
      by simp
    finally show ?thesis
      using True by simp
  next
    case False
    then have ij: "i + 1 \<le> j"
      using Suc.prems(1) by simp
    show ?thesis
    proof (cases "board ! i = None")
      case True
      with inr Suc.hyps(1) [OF k ij Suc.prems(2,3)] show ?thesis
        by (subst plainMinLoop.simps) simp
    next
      case False
      then obtain p where "board ! i = Some p"
        by auto
      with inr Suc.hyps(1) [OF k ij Suc.prems(2,3)] show ?thesis
        by (subst plainMinLoop.simps) simp
    qed
  qed
qed

lemma plainMaxLoop_le:
  assumes "bestScore \<le> u"
    and "\<And>j. i \<le> j \<Longrightarrow> j < length board \<Longrightarrow> board ! j = None \<Longrightarrow>
      plainMinimax (board[j := Some PlayerX]) (depth + 1) False \<le> u"
  shows "plainMaxLoop i board depth bestScore \<le> u"
  using assms
proof (induction "length board - i" arbitrary: i bestScore)
  case 0
  then have "\<not> i < length board"
    by simp
  then have "plainMaxLoop i board depth bestScore = bestScore"
    by (subst plainMaxLoop.simps) simp
  with "0.prems"(1) show ?case
    by simp
next
  case (Suc k)
  from Suc.hyps(2) have inr: "i < length board" and k: "k = length board - (i + 1)"
    by simp_all
  have later: "plainMinimax (board[j := Some PlayerX]) (depth + 1) False \<le> u"
    if "i + 1 \<le> j" "j < length board" "board ! j = None" for j
  proof (rule Suc.prems(2))
    from that show "i \<le> j" "j < length board" "board ! j = None"
      by simp_all
  qed
  show ?case
  proof (cases "board ! i = None")
    case True
    have "plainMinimax (board[i := Some PlayerX]) (depth + 1) False \<le> u"
      using inr True by (intro Suc.prems(2)) simp_all
    with Suc.prems(1) have
      "max (plainMinimax (board[i := Some PlayerX]) (depth + 1) False) bestScore \<le> u"
      by simp
    then have "plainMaxLoop (i + 1) board depth
        (max (plainMinimax (board[i := Some PlayerX]) (depth + 1) False) bestScore) \<le> u"
      using later by (rule Suc.hyps(1) [OF k])
    moreover have "plainMaxLoop i board depth bestScore = plainMaxLoop (i + 1) board depth
        (max (plainMinimax (board[i := Some PlayerX]) (depth + 1) False) bestScore)"
      using inr True by (subst plainMaxLoop.simps) simp
    ultimately show ?thesis
      by simp
  next
    case False
    then obtain p where occ: "board ! i = Some p"
      by auto
    have "plainMaxLoop (i + 1) board depth bestScore \<le> u"
      using Suc.prems(1) later by (rule Suc.hyps(1) [OF k])
    moreover have "plainMaxLoop i board depth bestScore = plainMaxLoop (i + 1) board depth bestScore"
      using inr occ by (subst plainMaxLoop.simps) simp
    ultimately show ?thesis
      by simp
  qed
qed


lemma plainMinLoop_ge:
  assumes "l \<le> bestScore"
    and "\<And>j. i \<le> j \<Longrightarrow> j < length board \<Longrightarrow> board ! j = None \<Longrightarrow>
      l \<le> plainMinimax (board[j := Some PlayerO]) (depth + 1) True"
  shows "l \<le> plainMinLoop i board depth bestScore"
  using assms
proof (induction "length board - i" arbitrary: i bestScore)
  case 0
  then have "\<not> i < length board"
    by simp
  then have "plainMinLoop i board depth bestScore = bestScore"
    by (subst plainMinLoop.simps) simp
  with "0.prems"(1) show ?case
    by simp
next
  case (Suc k)
  from Suc.hyps(2) have inr: "i < length board" and k: "k = length board - (i + 1)"
    by simp_all
  have later: "l \<le> plainMinimax (board[j := Some PlayerO]) (depth + 1) True"
    if "i + 1 \<le> j" "j < length board" "board ! j = None" for j
  proof (rule Suc.prems(2))
    from that show "i \<le> j" "j < length board" "board ! j = None"
      by simp_all
  qed
  show ?case
  proof (cases "board ! i = None")
    case True
    have "l \<le> plainMinimax (board[i := Some PlayerO]) (depth + 1) True"
      using inr True by (intro Suc.prems(2)) simp_all
    with Suc.prems(1) have
      "l \<le> min (plainMinimax (board[i := Some PlayerO]) (depth + 1) True) bestScore"
      by simp
    then have "l \<le> plainMinLoop (i + 1) board depth
        (min (plainMinimax (board[i := Some PlayerO]) (depth + 1) True) bestScore)"
      using later by (rule Suc.hyps(1) [OF k])
    moreover have "plainMinLoop i board depth bestScore = plainMinLoop (i + 1) board depth
        (min (plainMinimax (board[i := Some PlayerO]) (depth + 1) True) bestScore)"
      using inr True by (subst plainMinLoop.simps) simp
    ultimately show ?thesis
      by simp
  next
    case False
    then obtain p where occ: "board ! i = Some p"
      by auto
    have "l \<le> plainMinLoop (i + 1) board depth bestScore"
      using Suc.prems(1) later by (rule Suc.hyps(1) [OF k])
    moreover have "plainMinLoop i board depth bestScore = plainMinLoop (i + 1) board depth bestScore"
      using inr occ by (subst plainMinLoop.simps) simp
    ultimately show ?thesis
      by simp
  qed
qed


text \<open>On a board that is not terminal, bounds on the scores of all the moves bound
  the score of the board.\<close>

lemma not_full_empty: "\<not> isBoardFull board \<Longrightarrow> \<exists>j < length board. board ! j = None"
  by (auto simp: isBoardFull_iff)

lemma plainMinimax_max_bounds:
  assumes nt: "checkWinnerForMiniMax board = None" "\<not> isBoardFull board"
    and ch: "\<And>j. j < length board \<Longrightarrow> board ! j = None \<Longrightarrow>
      l \<le> plainMinimax (board[j := Some PlayerX]) (depth + 1) False
      \<and> plainMinimax (board[j := Some PlayerX]) (depth + 1) False \<le> u"
  shows "l \<le> plainMinimax board depth True \<and> plainMinimax board depth True \<le> u"
proof -
  have eq: "plainMinimax board depth True = plainMaxLoop 0 board depth NegInf"
    using nt by (subst plainMinimax.simps) simp
  obtain j where j: "j < length board" "board ! j = None"
    using not_full_empty [OF nt(2)] by blast
  have "l \<le> plainMinimax (board[j := Some PlayerX]) (depth + 1) False"
    using ch [OF j] by simp
  also have "\<dots> \<le> plainMaxLoop 0 board depth NegInf"
    using _ j by (rule plainMaxLoop_ge_child) simp
  finally have lower: "l \<le> plainMaxLoop 0 board depth NegInf" .
  have upper: "plainMaxLoop 0 board depth NegInf \<le> u"
  proof (rule plainMaxLoop_le)
    show "NegInf \<le> u"
      by simp
  next
    fix j
    assume "j < length board" "board ! j = None"
    from ch [OF this]
    show "plainMinimax (board[j := Some PlayerX]) (depth + 1) False \<le> u"
      by simp
  qed
  from lower upper show ?thesis
    by (simp add: eq)
qed

lemma plainMinimax_min_bounds:
  assumes nt: "checkWinnerForMiniMax board = None" "\<not> isBoardFull board"
    and ch: "\<And>j. j < length board \<Longrightarrow> board ! j = None \<Longrightarrow>
      l \<le> plainMinimax (board[j := Some PlayerO]) (depth + 1) True
      \<and> plainMinimax (board[j := Some PlayerO]) (depth + 1) True \<le> u"
  shows "l \<le> plainMinimax board depth False \<and> plainMinimax board depth False \<le> u"
proof -
  have eq: "plainMinimax board depth False = plainMinLoop 0 board depth PosInf"
    using nt by (subst plainMinimax.simps) simp
  obtain j where j: "j < length board" "board ! j = None"
    using not_full_empty [OF nt(2)] by blast
  have "plainMinLoop 0 board depth PosInf
      \<le> plainMinimax (board[j := Some PlayerO]) (depth + 1) True"
    using _ j by (rule plainMinLoop_le_child) simp
  also have "\<dots> \<le> u"
    using ch [OF j] by simp
  finally have upper: "plainMinLoop 0 board depth PosInf \<le> u" .
  have lower: "l \<le> plainMinLoop 0 board depth PosInf"
  proof (rule plainMinLoop_ge)
    show "l \<le> PosInf"
      by simp
  next
    fix j
    assume "j < length board" "board ! j = None"
    from ch [OF this]
    show "l \<le> plainMinimax (board[j := Some PlayerO]) (depth + 1) True"
      by simp
  qed
  from lower upper show ?thesis
    by (simp add: eq)
qed

lemma plainMinimax_terminal:
  "checkWinnerForMiniMax board = Some PlayerX \<Longrightarrow> plainMinimax board depth t = Fin (10 - depth)"
  "checkWinnerForMiniMax board = Some PlayerO \<Longrightarrow> plainMinimax board depth t = Fin (depth - 10)"
  "checkWinnerForMiniMax board = None \<Longrightarrow> isBoardFull board \<Longrightarrow>
     plainMinimax board depth t = Fin 0"
  by (subst plainMinimax.simps, simp)+

lemma winner_cases:
  "checkWinnerForMiniMax board = None \<or> checkWinnerForMiniMax board = Some PlayerX
   \<or> checkWinnerForMiniMax board = Some PlayerO"
  by (cases "checkWinnerForMiniMax board") (auto intro: Player.exhaust)

section \<open>The range of the scores\<close>

lemma emptyCount_zero_full: "emptyCount board = 0 \<Longrightarrow> isBoardFull board"
  by (auto simp: emptyCount_def isBoardFull_def list_all_iff filter_empty_conv)

lemma emptyCount_pos: "\<not> isBoardFull board \<Longrightarrow> 0 < emptyCount board"
  using emptyCount_zero_full [of board] by auto

lemma Fin_lower: "Fin a \<le> x \<Longrightarrow> b \<le> a \<Longrightarrow> Fin b \<le> x"
  by (cases x) simp_all

lemma Fin_upper: "x \<le> Fin a \<Longrightarrow> a \<le> b \<Longrightarrow> x \<le> Fin b"
  by (cases x) simp_all

text \<open>Every score is finite: it lies within \<open>\<bar>10 - depth\<bar>\<close> plus the number of empty
  cells of zero.\<close>

lemma plainMinimax_bounded:
  "Fin (- (\<bar>10 - depth\<bar> + int (emptyCount board))) \<le> plainMinimax board depth t
   \<and> plainMinimax board depth t \<le> Fin (\<bar>10 - depth\<bar> + int (emptyCount board))"
proof (induction "emptyCount board" arbitrary: board depth t)
  case 0
  then have full: "isBoardFull board"
    by (simp add: emptyCount_zero_full)
  from winner_cases [of board] show ?case
    using full by (auto simp: plainMinimax_terminal)
next
  case (Suc n)
  let ?l = "Fin (- (\<bar>10 - depth\<bar> + int (emptyCount board)))"
  let ?u = "Fin (\<bar>10 - depth\<bar> + int (emptyCount board))"
  show ?case
  proof (cases "checkWinnerForMiniMax board = None \<and> \<not> isBoardFull board")
    case False
    with winner_cases [of board] show ?thesis
      by (auto simp: plainMinimax_terminal)
  next
    case nt: True
    have child: "?l \<le> plainMinimax (board[j := Some p]) (depth + 1) t'
        \<and> plainMinimax (board[j := Some p]) (depth + 1) t' \<le> ?u"
      if j: "j < length board" "board ! j = None" for j p t'
    proof -
      have ec: "emptyCount board = Suc (emptyCount (board[j := Some p]))"
        using emptyCount_update_Suc [OF j, of p] by simp
      then have n: "n = emptyCount (board[j := Some p])"
        using Suc.hyps(2) by simp
      from Suc.hyps(1) [OF n, of "depth + 1" t'] show ?thesis
        unfolding ec by (auto elim!: Fin_lower Fin_upper)
    qed
    show ?thesis
    proof (cases t)
      case True
      have "?l \<le> plainMinimax board depth True \<and> plainMinimax board depth True \<le> ?u"
        using nt child by (intro plainMinimax_max_bounds) blast+
      with True show ?thesis
        by simp
    next
      case False
      have "?l \<le> plainMinimax board depth False \<and> plainMinimax board depth False \<le> ?u"
        using nt child by (intro plainMinimax_min_bounds) blast+
      with False show ?thesis
        by simp
    qed
  qed
qed

lemma plainMinimax_finite: "\<exists>k. plainMinimax board depth t = Fin k"
  using plainMinimax_bounded [of depth board t]
  by (cases "plainMinimax board depth t") simp_all

lemma plainMinimax_gt_NegInf: "NegInf < plainMinimax board depth t"
  using plainMinimax_finite [of board depth t] by (auto simp: less_Num_def)

text \<open>
  On a board whose empty cells all fit before depth ten (as on every board of nine cells
  searched from depth zero), a score at depth \<open>d\<close> lies between \<open>d - 10\<close> and
  \<open>10 - d\<close>, and on a board that is not terminal between \<open>d - 9\<close> and \<open>9 - d\<close>.
\<close>

lemma plainMinimax_range:
  "depth + int (emptyCount board) \<le> 10 \<Longrightarrow>
   Fin (depth - 10) \<le> plainMinimax board depth t \<and> plainMinimax board depth t \<le> Fin (10 - depth)"
proof (induction "emptyCount board" arbitrary: board depth t)
  case 0
  then have full: "isBoardFull board"
    by (simp add: emptyCount_zero_full)
  from winner_cases [of board] show ?case
    using full "0.prems" by (auto simp: plainMinimax_terminal)
next
  case (Suc n)
  have d: "depth \<le> 10"
    using Suc.prems by simp
  show ?case
  proof (cases "checkWinnerForMiniMax board = None \<and> \<not> isBoardFull board")
    case False
    with winner_cases [of board] d show ?thesis
      by (auto simp: plainMinimax_terminal)
  next
    case nt: True
    have child: "Fin (depth - 10) \<le> plainMinimax (board[j := Some p]) (depth + 1) t'
        \<and> plainMinimax (board[j := Some p]) (depth + 1) t' \<le> Fin (10 - depth)"
      if j: "j < length board" "board ! j = None" for j p t'
    proof -
      have ec: "emptyCount board = Suc (emptyCount (board[j := Some p]))"
        using emptyCount_update_Suc [OF j, of p] by simp
      then have n: "n = emptyCount (board[j := Some p])"
        using Suc.hyps(2) by simp
      have "depth + 1 + int (emptyCount (board[j := Some p])) \<le> 10"
        using Suc.prems ec by simp
      from Suc.hyps(1) [OF n this, of t'] show ?thesis
        by (auto elim!: Fin_lower Fin_upper)
    qed
    show ?thesis
    proof (cases t)
      case True
      have "Fin (depth - 10) \<le> plainMinimax board depth True
          \<and> plainMinimax board depth True \<le> Fin (10 - depth)"
        using nt child by (intro plainMinimax_max_bounds) blast+
      with True show ?thesis
        by simp
    next
      case False
      have "Fin (depth - 10) \<le> plainMinimax board depth False
          \<and> plainMinimax board depth False \<le> Fin (10 - depth)"
        using nt child by (intro plainMinimax_min_bounds) blast+
      with False show ?thesis
        by simp
    qed
  qed
qed

lemma plainMinimax_range_nonterminal:
  assumes nt: "checkWinnerForMiniMax board = None" "\<not> isBoardFull board"
    and d: "depth + int (emptyCount board) \<le> 10"
  shows "Fin (depth - 9) \<le> plainMinimax board depth t \<and> plainMinimax board depth t \<le> Fin (9 - depth)"
proof -
  have child: "Fin (depth - 9) \<le> plainMinimax (board[j := Some p]) (depth + 1) t'
      \<and> plainMinimax (board[j := Some p]) (depth + 1) t' \<le> Fin (9 - depth)"
    if j: "j < length board" "board ! j = None" for j p t'
  proof -
    have "emptyCount board = Suc (emptyCount (board[j := Some p]))"
      using emptyCount_update_Suc [OF j, of p] by simp
    then have "depth + 1 + int (emptyCount (board[j := Some p])) \<le> 10"
      using d by simp
    from plainMinimax_range [OF this, of t'] show ?thesis
      by simp
  qed
  show ?thesis
  proof (cases t)
    case True
    have "Fin (depth - 9) \<le> plainMinimax board depth True
        \<and> plainMinimax board depth True \<le> Fin (9 - depth)"
      using nt child by (intro plainMinimax_max_bounds) blast+
    with True show ?thesis
      by simp
  next
    case False
    have "Fin (depth - 9) \<le> plainMinimax board depth False
        \<and> plainMinimax board depth False \<le> Fin (9 - depth)"
      using nt child by (intro plainMinimax_min_bounds) blast+
    with False show ?thesis
      by simp
  qed
qed

section \<open>The move that \<open>getBestMove\<close> selects\<close>

text \<open>\<open>moveScore board j\<close>: the score of the board after \<open>X\<close> is placed on cell \<open>j\<close>.\<close>

definition moveScore :: "Board \<Rightarrow> nat \<Rightarrow> Num" where
  "moveScore board j = plainMinimax (board[j := Some PlayerX]) 0 False"

lemma plainBestFrom_spec:
  "((\<forall>j. i \<le> j \<and> j < length board \<and> board ! j = None \<longrightarrow> \<not> s0 < moveScore board j)
      \<and> plainBestFrom i board s0 m0 = m0)
   \<or> (\<exists>k. i \<le> k \<and> k < length board \<and> board ! k = None
        \<and> plainBestFrom i board s0 m0 = int k \<and> s0 < moveScore board k
        \<and> (\<forall>j. i \<le> j \<and> j < length board \<and> board ! j = None \<longrightarrow>
              moveScore board j \<le> moveScore board k
              \<and> (j < k \<longrightarrow> moveScore board j < moveScore board k)))"
  (is "?none i s0 m0 \<or> ?some i s0 m0")
proof (induction i board s0 m0 rule: plainBestFrom.induct)
  case (1 i board bestScore m)
  show ?case
  proof (cases "i < length board")
    case False
    then have "plainBestFrom i board bestScore m = m"
      by (subst plainBestFrom.simps) simp
    with False show ?thesis
      by auto
  next
    case inr: True
    have split: "i \<le> j \<longleftrightarrow> j = i \<or> i + 1 \<le> j" for j
      by auto
    show ?thesis
    proof (cases "board ! i = None")
      case False
      then obtain p where occ: "board ! i = Some p"
        by auto
      have eq: "plainBestFrom i board bestScore m = plainBestFrom (i + 1) board bestScore m"
        using inr occ by (subst plainBestFrom.simps) simp
      from "1.IH"(3) [OF inr False] show ?thesis
        unfolding eq using occ by (auto simp: split)
    next
      case emp: True
      let ?s = "moveScore board i"
      have s: "plainMinimax (board[i := Some PlayerX]) 0 False = ?s"
        by (simp add: moveScore_def)
      show ?thesis
      proof (cases "bestScore < ?s")
        case True
        have eq: "plainBestFrom i board bestScore m = plainBestFrom (i + 1) board ?s (int i)"
          using inr emp True by (subst plainBestFrom.simps) (simp add: Let_def s)
        from "1.IH"(1) [OF inr emp s [symmetric] True]
        show ?thesis
        proof
          assume a: "(\<forall>j. i + 1 \<le> j \<and> j < length board \<and> board ! j = None \<longrightarrow>
              \<not> ?s < moveScore board j) \<and> plainBestFrom (i + 1) board ?s (int i) = int i"
          have "i \<le> i \<and> i < length board \<and> board ! i = None
              \<and> plainBestFrom i board bestScore m = int i \<and> bestScore < ?s
              \<and> (\<forall>j. i \<le> j \<and> j < length board \<and> board ! j = None \<longrightarrow>
                    moveScore board j \<le> ?s \<and> (j < i \<longrightarrow> moveScore board j < ?s))"
            using a inr emp True eq by (auto simp: split not_less)
          then show ?thesis
            by blast
        next
          assume "\<exists>k. i + 1 \<le> k \<and> k < length board \<and> board ! k = None
              \<and> plainBestFrom (i + 1) board ?s (int i) = int k \<and> ?s < moveScore board k
              \<and> (\<forall>j. i + 1 \<le> j \<and> j < length board \<and> board ! j = None \<longrightarrow>
                    moveScore board j \<le> moveScore board k
                    \<and> (j < k \<longrightarrow> moveScore board j < moveScore board k))"
          then obtain k where k: "i + 1 \<le> k" "k < length board" "board ! k = None"
              "plainBestFrom (i + 1) board ?s (int i) = int k" "?s < moveScore board k"
              "\<forall>j. i + 1 \<le> j \<and> j < length board \<and> board ! j = None \<longrightarrow>
                    moveScore board j \<le> moveScore board k
                    \<and> (j < k \<longrightarrow> moveScore board j < moveScore board k)"
            by blast
          have "i \<le> k \<and> k < length board \<and> board ! k = None
              \<and> plainBestFrom i board bestScore m = int k \<and> bestScore < moveScore board k
              \<and> (\<forall>j. i \<le> j \<and> j < length board \<and> board ! j = None \<longrightarrow>
                    moveScore board j \<le> moveScore board k
                    \<and> (j < k \<longrightarrow> moveScore board j < moveScore board k))"
            using k True eq by (auto simp: split)
          then show ?thesis
            by blast
        qed
      next
        case False
        have eq: "plainBestFrom i board bestScore m = plainBestFrom (i + 1) board bestScore m"
          using inr emp False by (subst plainBestFrom.simps) (simp add: Let_def s)
        from "1.IH"(2) [OF inr emp s [symmetric] False]
        show ?thesis
        proof
          assume a: "(\<forall>j. i + 1 \<le> j \<and> j < length board \<and> board ! j = None \<longrightarrow>
              \<not> bestScore < moveScore board j) \<and> plainBestFrom (i + 1) board bestScore m = m"
          have "(\<forall>j. i \<le> j \<and> j < length board \<and> board ! j = None \<longrightarrow>
              \<not> bestScore < moveScore board j) \<and> plainBestFrom i board bestScore m = m"
            using a False eq by (auto simp: split)
          then show ?thesis
            by blast
        next
          assume "\<exists>k. i + 1 \<le> k \<and> k < length board \<and> board ! k = None
              \<and> plainBestFrom (i + 1) board bestScore m = int k \<and> bestScore < moveScore board k
              \<and> (\<forall>j. i + 1 \<le> j \<and> j < length board \<and> board ! j = None \<longrightarrow>
                    moveScore board j \<le> moveScore board k
                    \<and> (j < k \<longrightarrow> moveScore board j < moveScore board k))"
          then obtain k where k: "i + 1 \<le> k" "k < length board" "board ! k = None"
              "plainBestFrom (i + 1) board bestScore m = int k" "bestScore < moveScore board k"
              "\<forall>j. i + 1 \<le> j \<and> j < length board \<and> board ! j = None \<longrightarrow>
                    moveScore board j \<le> moveScore board k
                    \<and> (j < k \<longrightarrow> moveScore board j < moveScore board k)"
            by blast
          have "i \<le> k \<and> k < length board \<and> board ! k = None
              \<and> plainBestFrom i board bestScore m = int k \<and> bestScore < moveScore board k
              \<and> (\<forall>j. i \<le> j \<and> j < length board \<and> board ! j = None \<longrightarrow>
                    moveScore board j \<le> moveScore board k
                    \<and> (j < k \<longrightarrow> moveScore board j < moveScore board k))"
            using k False eq by (auto simp: split not_less)
          then show ?thesis
            by blast
        qed
      qed
    qed
  qed
qed

text \<open>From the start of the loop: \<open>-1\<close> on a board without an empty cell, and otherwise
  the first empty cell whose score no other empty cell exceeds.\<close>

lemma plainBestMove_none:
  "\<forall>j < length board. board ! j \<noteq> None \<Longrightarrow> plainBestMove board = - 1"
  using plainBestFrom_spec [of 0 board NegInf "- 1"]
  by (auto simp: plainBestMove_def)

lemma plainBestMove_some:
  assumes "j0 < length board" "board ! j0 = None"
  shows "\<exists>k < length board. board ! k = None \<and> plainBestMove board = int k
      \<and> (\<forall>j < length board. board ! j = None \<longrightarrow>
            moveScore board j \<le> moveScore board k
            \<and> (j < k \<longrightarrow> moveScore board j < moveScore board k))"
proof -
  have "NegInf < moveScore board j0"
    by (simp add: moveScore_def plainMinimax_gt_NegInf)
  with assms have "\<not> (\<forall>j. 0 \<le> j \<and> j < length board \<and> board ! j = None \<longrightarrow>
      \<not> NegInf < moveScore board j)"
    by blast
  with plainBestFrom_spec [of 0 board NegInf "- 1"] show ?thesis
    by (auto simp: plainBestMove_def)
qed

section \<open>Claims about the evaluator and the frame of the search\<close>

text \<open>
  Claim C1. For every board and depth, \<open>minimax\<close> checks its base cases in this order:
  a win of \<open>X\<close> found by the evaluator gives \<open>10 - depth\<close>; else a win of \<open>O\<close> gives
  \<open>depth - 10\<close>; else a full board gives \<open>0\<close>; only otherwise does it enter one of its
  loops and recurse. The second conjunct says so in terms of fuel: a single level of
  calls is enough exactly on the boards of the three base cases.
\<close>

theorem minimax_base_cases:
  "minimax (Suc n) board depth t alpha beta =
     (case checkWinnerForMiniMax board of
        Some PlayerX \<Rightarrow> Some (Fin (10 - depth), board)
      | Some PlayerO \<Rightarrow> Some (Fin (depth - 10), board)
      | None \<Rightarrow>
          if isBoardFull board then Some (Fin 0, board)
          else if t then maxLoop (minimax n) n 0 board depth NegInf alpha beta
          else minLoop (minimax n) n 0 board depth PosInf alpha beta)
   \<and> ((minimax (Suc 0) board depth t alpha beta = None)
        = (checkWinnerForMiniMax board = None \<and> \<not> isBoardFull board))"
proof -
  have "checkWinnerForMiniMax board = None \<or> checkWinnerForMiniMax board = Some PlayerX
      \<or> checkWinnerForMiniMax board = Some PlayerO"
    by (cases "checkWinnerForMiniMax board") (auto intro: Player.exhaust)
  then show ?thesis
    by (auto simp: Let_def)
qed

text \<open>
  Claim C4. On a board of nine cells the evaluator reports a player exactly when one of
  the eight fixed triples (three rows, three columns, two diagonals) holds three marks
  of that player, and it reports nobody exactly when no triple is complete. A draw is
  declared only when there is no winner and every cell is marked, so on a board that is
  both full and won the win takes precedence.
\<close>

theorem evaluator_triples_and_draw:
  assumes "length board = 9"
  shows "winPatterns = [(0, 1, 2), (3, 4, 5), (6, 7, 8), (0, 3, 6), (1, 4, 7), (2, 5, 8),
                        (0, 4, 8), (2, 4, 6)]
    \<and> (checkWinnerForMiniMax board = Some p \<longrightarrow>
          (\<exists>(a, b, c) \<in> set winPatterns.
              board ! a = Some p \<and> board ! b = Some p \<and> board ! c = Some p))
    \<and> (checkWinnerForMiniMax board = None \<longleftrightarrow>
          \<not> (\<exists>(a, b, c) \<in> set winPatterns. \<exists>q.
              board ! a = Some q \<and> board ! b = Some q \<and> board ! c = Some q))
    \<and> (isDraw board \<longleftrightarrow>
          checkWinnerForMiniMax board = None \<and> (\<forall>i < 9. board ! i \<noteq> None))
    \<and> (isBoardFull board \<and> checkWinnerForMiniMax board = Some p \<longrightarrow>
          \<not> isDraw board)"
proof -
  have inr: "\<And>a b c. (a, b, c) \<in> set winPatterns \<Longrightarrow> a < 9 \<and> b < 9 \<and> c < 9"
    by (auto simp: winPatterns_def)
  have line: "\<And>q l. l \<in> set winPatterns \<Longrightarrow>
      lineOf q board l \<longleftrightarrow>
        (case l of (a, b, c) \<Rightarrow> board ! a = Some q \<and> board ! b = Some q \<and> board ! c = Some q)"
    using assms inr by (auto simp: lineOf_def cell_def)
  have some: "checkWinnerForMiniMax board = Some p \<longrightarrow>
      (\<exists>(a, b, c) \<in> set winPatterns.
          board ! a = Some p \<and> board ! b = Some p \<and> board ! c = Some p)"
  proof
    assume "checkWinnerForMiniMax board = Some p"
    then obtain l where "l \<in> set winPatterns" "lineOf p board l"
      using checkPatterns_Some [of winPatterns board p]
      by (auto simp: checkWinnerForMiniMax_def)
    then show "\<exists>(a, b, c) \<in> set winPatterns.
        board ! a = Some p \<and> board ! b = Some p \<and> board ! c = Some p"
      using line [of l p] by (auto intro!: bexI [of _ l])
  qed
  have none: "checkWinnerForMiniMax board = None \<longleftrightarrow>
      \<not> (\<exists>(a, b, c) \<in> set winPatterns. \<exists>q.
          board ! a = Some q \<and> board ! b = Some q \<and> board ! c = Some q)"
    unfolding checkWinnerForMiniMax_def checkPatterns_None
    using line by fastforce
  have draw: "isDraw board \<longleftrightarrow>
      checkWinnerForMiniMax board = None \<and> (\<forall>i < 9. board ! i \<noteq> None)"
    using assms by (simp add: isDraw_def isBoardFull_iff)
  show ?thesis
    using some none draw by (simp add: winPatterns_def isDraw_def)
qed

theorem evaluator_triples_and_draw_witness:
  "length [Some PlayerX, Some PlayerO, Some PlayerO,
           Some PlayerO, Some PlayerX, Some PlayerX,
           Some PlayerO, Some PlayerX, Some PlayerX] = 9
   \<and> isBoardFull [Some PlayerX, Some PlayerO, Some PlayerO,
           Some PlayerO, Some PlayerX, Some PlayerX,
           Some PlayerO, Some PlayerX, Some PlayerX]
   \<and> checkWinnerForMiniMax [Some PlayerX, Some PlayerO, Some PlayerO,
           Some PlayerO, Some PlayerX, Some PlayerX,
           Some PlayerO, Some PlayerX, Some PlayerX] = Some PlayerX
   \<and> \<not> isDraw [Some PlayerX, Some PlayerO, Some PlayerO,
           Some PlayerO, Some PlayerX, Some PlayerX,
           Some PlayerO, Some PlayerX, Some PlayerX]
   \<and> (\<exists>(a, b, c) \<in> set winPatterns.
         [Some PlayerX, Some PlayerO, Some PlayerO,
           Some PlayerO, Some PlayerX, Some PlayerX,
           Some PlayerO, Some PlayerX, Some PlayerX] ! a = Some PlayerX
       \<and> [Some PlayerX, Some PlayerO, Some PlayerO,
           Some PlayerO, Some PlayerX, Some PlayerX,
           Some PlayerO, Some PlayerX, Some PlayerX] ! b = Some PlayerX
       \<and> [Some PlayerX, Some PlayerO, Some PlayerO,
           Some PlayerO, Some PlayerX, Some PlayerX,
           Some PlayerO, Some PlayerX, Some PlayerX] ! c = Some PlayerX)"
proof -
  let ?b = "[Some PlayerX, Some PlayerO, Some PlayerO,
           Some PlayerO, Some PlayerX, Some PlayerX,
           Some PlayerO, Some PlayerX, Some PlayerX]"
  have len: "length ?b = 9"
    by simp
  have full: "isBoardFull ?b"
    by (simp add: isBoardFull_def)
  have win: "checkWinnerForMiniMax ?b = Some PlayerX"
    by (simp add: checkWinnerForMiniMax_def winPatterns_def cell_def)
  show ?thesis
    using evaluator_triples_and_draw [OF len, of PlayerX] len full win by blast
qed

text \<open>
  Claim C5. Every call of \<open>minimax\<close> and every call of \<open>getBestMove\<close> leaves the board as
  it was before the call, and so does each of the two loops of \<open>minimax\<close> from whatever
  index it is entered: every tentative placement is undone before the next sibling is
  explored and before the function returns, also when a loop is left by pruning. With
  enough fuel both functions do return.
\<close>

theorem search_restores_board:
  "(minimax n board depth t alpha beta = Some (v, board1) \<longrightarrow> board1 = board)
   \<and> (maxLoop (minimax n) k i board depth s alpha beta = Some (v, board2) \<longrightarrow> board2 = board)
   \<and> (minLoop (minimax n) k i board depth s alpha beta = Some (v, board3) \<longrightarrow> board3 = board)
   \<and> (getBestMove n board = Some (m, board4) \<longrightarrow> board4 = board)
   \<and> (fuelFor board \<le> n \<longrightarrow>
        (\<exists>w. minimax n board depth t alpha beta = Some (w, board))
        \<and> (\<exists>j. getBestMove n board = Some (j, board)))"
proof -
  have rec: "\<And>b d t a c v b'. minimax n b d t a c = Some (v, b') \<Longrightarrow> b' = b"
    by (rule minimax_frame)
  have mx: "\<And>v b'. maxLoop (minimax n) k i board depth s alpha beta = Some (v, b') \<Longrightarrow> b' = board"
    using rec by (rule maxLoop_frame)
  have mn: "\<And>v b'. minLoop (minimax n) k i board depth s alpha beta = Some (v, b') \<Longrightarrow> b' = board"
    using rec by (rule minLoop_frame)
  show ?thesis
    using minimax_frame [of n board depth t alpha beta v board1]
      getBestMove_frame [of n board m board4] mx [of v board2] mn [of v board3]
    by (simp add: minimax_score getBestMove_bestMove)
qed

theorem search_restores_board_witness:
  "minimax 13 [Some PlayerX, Some PlayerO, Some PlayerX,
               Some PlayerO, Some PlayerO, Some PlayerX,
               None, Some PlayerX, None] 0 False NegInf PosInf
     = Some (Fin 0, [Some PlayerX, Some PlayerO, Some PlayerX,
               Some PlayerO, Some PlayerO, Some PlayerX,
               None, Some PlayerX, None])
   \<and> maxLoop (minimax 12) 12 0 [Some PlayerX, Some PlayerO, Some PlayerX,
               Some PlayerO, Some PlayerO, Some PlayerX,
               None, Some PlayerX, None] 0 NegInf NegInf PosInf
     = Some (Fin 9, [Some PlayerX, Some PlayerO, Some PlayerX,
               Some PlayerO, Some PlayerO, Some PlayerX,
               None, Some PlayerX, None])
   \<and> getBestMove 13 [Some PlayerX, Some PlayerO, Some PlayerX,
               Some PlayerO, Some PlayerO, Some PlayerX,
               None, Some PlayerX, None]
     = Some (8, [Some PlayerX, Some PlayerO, Some PlayerX,
               Some PlayerO, Some PlayerO, Some PlayerX,
               None, Some PlayerX, None])
   \<and> fuelFor [Some PlayerX, Some PlayerO, Some PlayerX,
               Some PlayerO, Some PlayerO, Some PlayerX,
               None, Some PlayerX, None] \<le> 13"
proof -
  let ?b = "[Some PlayerX, Some PlayerO, Some PlayerX,
               Some PlayerO, Some PlayerO, Some PlayerX,
               None, Some PlayerX, None]"
  have fuel: "fuelFor ?b \<le> 13"
    by (simp add: fuelFor_def emptyCount_def)
  have mm: "minimax 13 ?b 0 False NegInf PosInf = Some (Fin 0, ?b)"
    by code_simp
  have ml: "maxLoop (minimax 12) 12 0 ?b 0 NegInf NegInf PosInf = Some (Fin 9, ?b)"
    by code_simp
  have gb: "getBestMove 13 ?b = Some (8, ?b)"
    by code_simp
  from mm ml gb fuel show ?thesis
    using search_restores_board [of 13 ?b 0 False NegInf PosInf "Fin 0" ?b 12 0 NegInf ?b ?b 8 ?b]
    by simp
qed

text \<open>
  Claim C10. On every board reachable from the empty board by alternating legal moves
  of \<open>X\<close> and \<open>O\<close>, at most one of the two players has a completed triple, so the winner
  that the evaluator returns is unambiguous: it reports a player exactly when that
  player has a completed triple.
\<close>

theorem reachable_winner_unambiguous:
  assumes "reachable board p"
  shows "\<not> (hasLine PlayerX board \<and> hasLine PlayerO board)
    \<and> (checkWinnerForMiniMax board = Some q \<longleftrightarrow> hasLine q board)"
  using reachable_one_winner [OF assms] reachable_winner_iff [OF assms] by simp

theorem reachable_winner_unambiguous_witness:
  "reachable [Some PlayerX, Some PlayerX, Some PlayerX,
              Some PlayerO, Some PlayerO, None, None, None, None] PlayerO
   \<and> hasLine PlayerX [Some PlayerX, Some PlayerX, Some PlayerX,
              Some PlayerO, Some PlayerO, None, None, None, None]
   \<and> \<not> hasLine PlayerO [Some PlayerX, Some PlayerX, Some PlayerX,
              Some PlayerO, Some PlayerO, None, None, None, None]
   \<and> checkWinnerForMiniMax [Some PlayerX, Some PlayerX, Some PlayerX,
              Some PlayerO, Some PlayerO, None, None, None, None] = Some PlayerX"
proof -
  have w: "\<And>b. checkWinnerForMiniMax b = None \<Longrightarrow> \<not> isDraw b \<Longrightarrow>
      checkWinnerForMiniMax b = None \<and> \<not> isDraw b"
    by simp
  have r1: "reachable [Some PlayerX, None, None, None, None, None, None, None, None] PlayerO"
    using moveX [OF start, of 0]
    by (simp add: checkWinnerForMiniMax_def winPatterns_def cell_def isDraw_def
        isBoardFull_def numeral_eq_Suc)
  have r2: "reachable [Some PlayerX, None, None, Some PlayerO, None, None, None, None, None]
      PlayerX"
    using moveO [OF r1, of 3]
    by (simp add: checkWinnerForMiniMax_def winPatterns_def cell_def isDraw_def
        isBoardFull_def)
  have r3: "reachable [Some PlayerX, Some PlayerX, None, Some PlayerO, None, None, None, None,
      None] PlayerO"
    using moveX [OF r2, of 1]
    by (simp add: checkWinnerForMiniMax_def winPatterns_def cell_def isDraw_def
        isBoardFull_def)
  have r4: "reachable [Some PlayerX, Some PlayerX, None, Some PlayerO, Some PlayerO, None, None,
      None, None] PlayerX"
    using moveO [OF r3, of 4]
    by (simp add: checkWinnerForMiniMax_def winPatterns_def cell_def isDraw_def
        isBoardFull_def)
  have r5: "reachable [Some PlayerX, Some PlayerX, Some PlayerX, Some PlayerO, Some PlayerO, None,
      None, None, None] PlayerO"
    using moveX [OF r4, of 2]
    by (simp add: checkWinnerForMiniMax_def winPatterns_def cell_def isDraw_def
        isBoardFull_def)
  have x: "hasLine PlayerX [Some PlayerX, Some PlayerX, Some PlayerX, Some PlayerO, Some PlayerO,
      None, None, None, None]"
    by (simp add: hasLine_def winPatterns_def lineOf_def cell_def)
  show ?thesis
    using reachable_winner_unambiguous [OF r5, of PlayerX] r5 x by simp
qed

section \<open>Claims about pruning and about the selected move\<close>

lemma fuelFor_child:
  "fuelFor board \<le> n \<Longrightarrow> j < length board \<Longrightarrow> board ! j = None \<Longrightarrow>
   fuelFor (board[j := Some p]) \<le> n"
  using fuelFor_update [of j board n p] by simp

lemma fuelFor_nine: "length board = 9 \<Longrightarrow> fuelFor board \<le> 20"
  using emptyCount_le_length [of board] by (simp add: fuelFor_def)

lemma minimax_move:
  assumes "fuelFor board \<le> n" "j < length board" "board ! j = None"
  shows "minimax n (setCell board j (Some PlayerX)) 0 False NegInf PosInf
    = Some (moveScore board j, setCell board j (Some PlayerX))"
  using assms minimax_score [OF fuelFor_child [OF assms, of PlayerX]]
  by (simp add: setCell_in_range score_plain moveScore_def)

lemma getBestMove_plain:
  "fuelFor board \<le> n \<Longrightarrow> getBestMove n board = Some (plainBestMove board, board)"
  by (simp add: getBestMove_bestMove bestMove_plain)

text \<open>
  Claim C2. For every board, depth and turn flag, \<open>minimax\<close> called with the bounds
  \<open>-Infinity\<close> and \<open>Infinity\<close> returns the score of plain minimax, which explores every
  move and never prunes; hence \<open>getBestMove\<close> selects the move that it would select on
  the scores of plain minimax.
\<close>

theorem pruning_preserves_score:
  assumes "fuelFor board \<le> n"
  shows "minimax n board depth t NegInf PosInf = Some (plainMinimax board depth t, board)
    \<and> getBestMove n board = Some (plainBestMove board, board)"
  using assms by (simp add: minimax_score score_plain getBestMove_plain)

theorem pruning_preserves_score_witness:
  "fuelFor [Some PlayerX, Some PlayerX, None, Some PlayerO, Some PlayerO, None, None, None,
            None] \<le> 20
   \<and> minimax 20 [Some PlayerX, Some PlayerX, None, Some PlayerO, Some PlayerO, None, None,
        None, None] 0 True NegInf PosInf
     = Some (plainMinimax [Some PlayerX, Some PlayerX, None, Some PlayerO, Some PlayerO, None,
        None, None, None] 0 True,
        [Some PlayerX, Some PlayerX, None, Some PlayerO, Some PlayerO, None, None, None, None])
   \<and> getBestMove 20 [Some PlayerX, Some PlayerX, None, Some PlayerO, Some PlayerO, None, None,
        None, None]
     = Some (plainBestMove [Some PlayerX, Some PlayerX, None, Some PlayerO, Some PlayerO, None,
        None, None, None],
        [Some PlayerX, Some PlayerX, None, Some PlayerO, Some PlayerO, None, None, None, None])"
proof -
  let ?b = "[Some PlayerX, Some PlayerX, None, Some PlayerO, Some PlayerO, None, None, None,
    None]"
  have f: "fuelFor ?b \<le> 20"
    by (simp add: fuelFor_def emptyCount_def)
  from f pruning_preserves_score [OF f, of 0 True] show ?thesis
    by (rule conjI)
qed

text \<open>
  Claim C3. For every board, \<open>getBestMove\<close> goes through the empty cells in increasing
  order, scores each by placing \<open>X\<close> there and calling \<open>minimax\<close> with depth \<open>0\<close>, the
  opponent to move and the bounds \<open>-Infinity\<close> and \<open>Infinity\<close>, and returns the cell \<open>k\<close>
  whose score is strictly greater than the score of every earlier empty cell and not
  less than the score of any empty cell: on equal scores the lowest index is kept. On
  a board without an empty cell it returns \<open>-1\<close>.
\<close>

theorem getBestMove_first_maximum:
  assumes "fuelFor board \<le> n"
  shows "\<exists>m. getBestMove n board = Some (m, board)
    \<and> (if \<forall>j < length board. board ! j \<noteq> None then m = - 1
        else \<exists>k < length board. m = int k \<and> board ! k = None
          \<and> (\<exists>sk. minimax n (setCell board k (Some PlayerX)) 0 False NegInf PosInf
                  = Some (sk, setCell board k (Some PlayerX))
              \<and> (\<forall>j < length board. board ! j = None \<longrightarrow>
                    (\<exists>sj. minimax n (setCell board j (Some PlayerX)) 0 False NegInf PosInf
                        = Some (sj, setCell board j (Some PlayerX))
                      \<and> sj \<le> sk \<and> (j < k \<longrightarrow> sj < sk)))))"
proof (cases "\<forall>j < length board. board ! j \<noteq> None")
  case True
  then show ?thesis
    using assms by (simp add: getBestMove_plain plainBestMove_none)
next
  case False
  then obtain j0 where "j0 < length board" "board ! j0 = None"
    by blast
  from plainBestMove_some [OF this] obtain k where k: "k < length board" "board ! k = None"
      "plainBestMove board = int k"
      "\<forall>j < length board. board ! j = None \<longrightarrow>
          moveScore board j \<le> moveScore board k
          \<and> (j < k \<longrightarrow> moveScore board j < moveScore board k)"
    by blast
  have "\<exists>sk. minimax n (setCell board k (Some PlayerX)) 0 False NegInf PosInf
        = Some (sk, setCell board k (Some PlayerX))
      \<and> (\<forall>j < length board. board ! j = None \<longrightarrow>
            (\<exists>sj. minimax n (setCell board j (Some PlayerX)) 0 False NegInf PosInf
                = Some (sj, setCell board j (Some PlayerX))
              \<and> sj \<le> sk \<and> (j < k \<longrightarrow> sj < sk)))"
    using k(1,2,4) by (intro exI [of _ "moveScore board k"]) (simp add: minimax_move [OF assms])
  with k(1,2,3) False show ?thesis
    using assms by (auto simp: getBestMove_plain)
qed

theorem getBestMove_first_maximum_witness:
  "fuelFor [Some PlayerX, Some PlayerO, Some PlayerX, Some PlayerO, Some PlayerO, Some PlayerX,
            None, Some PlayerX, None] \<le> 13
   \<and> getBestMove 13 [Some PlayerX, Some PlayerO, Some PlayerX, Some PlayerO, Some PlayerO,
        Some PlayerX, None, Some PlayerX, None]
     = Some (8, [Some PlayerX, Some PlayerO, Some PlayerX, Some PlayerO, Some PlayerO,
        Some PlayerX, None, Some PlayerX, None])
   \<and> minimax 13 [Some PlayerX, Some PlayerO, Some PlayerX, Some PlayerO, Some PlayerO,
        Some PlayerX, Some PlayerX, Some PlayerX, None] 0 False NegInf PosInf
     = Some (Fin 0, [Some PlayerX, Some PlayerO, Some PlayerX, Some PlayerO, Some PlayerO,
        Some PlayerX, Some PlayerX, Some PlayerX, None])
   \<and> minimax 13 [Some PlayerX, Some PlayerO, Some PlayerX, Some PlayerO, Some PlayerO,
        Some PlayerX, None, Some PlayerX, Some PlayerX] 0 False NegInf PosInf
     = Some (Fin 10, [Some PlayerX, Some PlayerO, Some PlayerX, Some PlayerO, Some PlayerO,
        Some PlayerX, None, Some PlayerX, Some PlayerX])
   \<and> (\<exists>m. getBestMove 13 [Some PlayerX, Some PlayerO, Some PlayerX, Some PlayerO,
        Some PlayerO, Some PlayerX, None, Some PlayerX, None]
       = Some (m, [Some PlayerX, Some PlayerO, Some PlayerX, Some PlayerO, Some PlayerO,
        Some PlayerX, None, Some PlayerX, None]))"
proof -
  let ?b = "[Some PlayerX, Some PlayerO, Some PlayerX, Some PlayerO, Some PlayerO, Some PlayerX,
    None, Some PlayerX, None]"
  have f: "fuelFor ?b \<le> 13"
    by (simp add: fuelFor_def emptyCount_def)
  have g: "getBestMove 13 ?b = Some (8, ?b)"
    by code_simp
  have s6: "minimax 13 [Some PlayerX, Some PlayerO, Some PlayerX, Some PlayerO, Some PlayerO,
        Some PlayerX, Some PlayerX, Some PlayerX, None] 0 False NegInf PosInf
     = Some (Fin 0, [Some PlayerX, Some PlayerO, Some PlayerX, Some PlayerO, Some PlayerO,
        Some PlayerX, Some PlayerX, Some PlayerX, None])"
    by code_simp
  have s8: "minimax 13 [Some PlayerX, Some PlayerO, Some PlayerX, Some PlayerO, Some PlayerO,
        Some PlayerX, None, Some PlayerX, Some PlayerX] 0 False NegInf PosInf
     = Some (Fin 10, [Some PlayerX, Some PlayerO, Some PlayerX, Some PlayerO, Some PlayerO,
        Some PlayerX, None, Some PlayerX, Some PlayerX])"
    by code_simp
  from getBestMove_first_maximum [OF f] have
    "\<exists>m. getBestMove 13 ?b = Some (m, ?b)"
    by blast
  with f g s6 s8 show ?thesis
    by blast
qed

text \<open>
  Claim C6. On every board of nine cells \<open>getBestMove\<close> returns the sentinel \<open>-1\<close> if and
  only if the board has no empty cell; otherwise it returns an index between \<open>0\<close> and
  \<open>8\<close> whose cell is empty, so it never selects a marked cell.
\<close>

theorem getBestMove_sentinel_or_empty_cell:
  assumes "length board = 9" "20 \<le> n"
  shows "\<exists>m. getBestMove n board = Some (m, board)
    \<and> (m = - 1 \<longleftrightarrow> (\<forall>j < 9. board ! j \<noteq> None))
    \<and> (m \<noteq> - 1 \<longrightarrow> 0 \<le> m \<and> m \<le> 8 \<and> board ! nat m = None)"
proof -
  have f: "fuelFor board \<le> n"
    using fuelFor_nine [OF assms(1)] assms(2) by simp
  show ?thesis
  proof (cases "\<forall>j < length board. board ! j \<noteq> None")
    case True
    then show ?thesis
      using f assms(1) by (simp add: getBestMove_plain plainBestMove_none)
  next
    case False
    then obtain j0 where "j0 < length board" "board ! j0 = None"
      by blast
    from plainBestMove_some [OF this] obtain k where "k < length board" "board ! k = None"
        "plainBestMove board = int k"
      by blast
    with False show ?thesis
      using f assms(1) by (auto simp: getBestMove_plain)
  qed
qed

theorem getBestMove_sentinel_or_empty_cell_witness:
  "length [Some PlayerX, Some PlayerO, Some PlayerX, Some PlayerO, Some PlayerO, Some PlayerX,
           None, Some PlayerX, None] = 9
   \<and> (20::nat) \<le> 20
   \<and> getBestMove 20 [Some PlayerX, Some PlayerO, Some PlayerX, Some PlayerO, Some PlayerO,
        Some PlayerX, None, Some PlayerX, None]
     = Some (8, [Some PlayerX, Some PlayerO, Some PlayerX, Some PlayerO, Some PlayerO,
        Some PlayerX, None, Some PlayerX, None])
   \<and> (\<exists>m. getBestMove 20 [Some PlayerX, Some PlayerO, Some PlayerX, Some PlayerO,
        Some PlayerO, Some PlayerX, None, Some PlayerX, None]
       = Some (m, [Some PlayerX, Some PlayerO, Some PlayerX, Some PlayerO, Some PlayerO,
        Some PlayerX, None, Some PlayerX, None])
      \<and> m \<noteq> - 1 \<and> 0 \<le> m \<and> m \<le> 8)"
proof -
  let ?b = "[Some PlayerX, Some PlayerO, Some PlayerX, Some PlayerO, Some PlayerO, Some PlayerX,
    None, Some PlayerX, None]"
  have l: "length ?b = 9"
    by simp
  have n: "(20::nat) \<le> 20"
    by simp
  have g: "getBestMove 20 ?b = Some (8, ?b)"
    by code_simp
  from getBestMove_sentinel_or_empty_cell [OF l n] g have
    "\<exists>m. getBestMove 20 ?b = Some (m, ?b) \<and> m \<noteq> - 1 \<and> 0 \<le> m \<and> m \<le> 8"
    by auto
  with l n g show ?thesis
    by blast
qed

section \<open>Immediate wins and forced blocks\<close>

lemma emptyCount_nine: "length board = 9 \<Longrightarrow> int (emptyCount board) \<le> 9"
  using emptyCount_le_length [of board] by simp

lemma no_winner_after_own_move:
  assumes "checkWinnerForMiniMax board = None" "j < length board" "board ! j = None" "q \<noteq> p"
  shows "checkWinnerForMiniMax (board[j := Some p]) \<noteq> Some q"
proof
  assume "checkWinnerForMiniMax (board[j := Some p]) = Some q"
  then have "hasLine q (board[j := Some p])"
    by (rule checkWinner_Some_hasLine)
  then have "hasLine q board"
    using assms(2,3,4) by (simp add: hasLine_update_other)
  with assms(1) show False
    by (simp add: checkWinner_None_iff)
qed

lemma other_player: "q \<noteq> PlayerX \<longleftrightarrow> q = PlayerO" "q \<noteq> PlayerO \<longleftrightarrow> q = PlayerX"
  by (cases q; simp)+

text \<open>A move of \<open>X\<close> that does not win leaves a board without a winner, and its score is
  at most \<open>9\<close>.\<close>

lemma moveScore_no_win:
  assumes len: "length board = 9" and nw: "checkWinnerForMiniMax board = None"
    and j: "j < 9" "board ! j = None"
    and nx: "checkWinnerForMiniMax (board[j := Some PlayerX]) \<noteq> Some PlayerX"
  shows "checkWinnerForMiniMax (board[j := Some PlayerX]) = None"
    and "moveScore board j \<le> Fin 9"
proof -
  let ?b = "board[j := Some PlayerX]"
  have "checkWinnerForMiniMax ?b \<noteq> Some PlayerO"
    using nw j len by (intro no_winner_after_own_move) simp_all
  with nx winner_cases [of ?b] show none: "checkWinnerForMiniMax ?b = None"
    by blast
  show "moveScore board j \<le> Fin 9"
  proof (cases "isBoardFull ?b")
    case True
    with none show ?thesis
      by (simp add: moveScore_def plainMinimax_terminal)
  next
    case False
    have "(0::int) + int (emptyCount ?b) \<le> 10"
      using emptyCount_nine [of ?b] len by simp
    from plainMinimax_range_nonterminal [OF none False this, of False] show ?thesis
      by (simp add: moveScore_def)
  qed
qed

lemma moveScore_win:
  "checkWinnerForMiniMax (board[j := Some PlayerX]) = Some PlayerX \<Longrightarrow>
   moveScore board j = Fin 10"
  by (simp add: moveScore_def plainMinimax_terminal)

lemma immediate_win:
  assumes len: "length board = 9" and n: "20 \<le> n"
    and nw: "checkWinnerForMiniMax board = None"
    and w: "w < 9" "board ! w = None"
      "checkWinnerForMiniMax (board[w := Some PlayerX]) = Some PlayerX"
    and only: "\<forall>j < 9. j \<noteq> w \<longrightarrow> board ! j = None \<longrightarrow>
      checkWinnerForMiniMax (board[j := Some PlayerX]) \<noteq> Some PlayerX"
  shows "getBestMove n board = Some (int w, board)"
proof -
  have f: "fuelFor board \<le> n"
    using fuelFor_nine [OF len] n by simp
  from plainBestMove_some [of w board] w len obtain k where k: "k < 9" "board ! k = None"
      "plainBestMove board = int k" "moveScore board w \<le> moveScore board k"
    by auto
  have "k = w"
  proof (rule ccontr)
    assume "k \<noteq> w"
    with only k(1,2) have "checkWinnerForMiniMax (board[k := Some PlayerX]) \<noteq> Some PlayerX"
      by blast
    from moveScore_no_win(2) [OF len nw k(1,2) this] k(4) show False
      by (cases "moveScore board k") (simp_all add: moveScore_win [OF w(3)])
  qed
  with k(3) f show ?thesis
    by (simp add: getBestMove_plain)
qed

text \<open>
  A move of \<open>X\<close> elsewhere than the only cell \<open>c\<close> on which \<open>O\<close> completes a triple, when
  \<open>X\<close> cannot win at once: \<open>O\<close> wins on the next move, and the score is \<open>-9\<close>.
\<close>

lemma moveScore_unblocked:
  assumes len: "length board = 9" and nw: "checkWinnerForMiniMax board = None"
    and c: "c < 9" "board ! c = None"
      "checkWinnerForMiniMax (board[c := Some PlayerO]) = Some PlayerO"
    and j: "j < 9" "board ! j = None" "j \<noteq> c"
    and nx: "checkWinnerForMiniMax (board[j := Some PlayerX]) \<noteq> Some PlayerX"
  shows "moveScore board j = Fin (- 9)"
proof -
  let ?b = "board[j := Some PlayerX]"
  have none: "checkWinnerForMiniMax ?b = None"
    by (rule moveScore_no_win(1) [OF len nw j(1,2) nx])
  have cj: "?b ! c = None" "c < length ?b"
    using c j len by simp_all
  then have nfull: "\<not> isBoardFull ?b"
    by (auto simp: isBoardFull_iff)
  have "(0::int) + int (emptyCount ?b) \<le> 10"
    using emptyCount_nine [of ?b] len by simp
  from plainMinimax_range_nonterminal [OF none nfull this, of False]
  have lower: "Fin (- 9) \<le> plainMinimax ?b 0 False"
    by simp
  have swap: "?b[c := Some PlayerO] = (board[c := Some PlayerO])[j := Some PlayerX]"
    using j(3) by (simp add: list_update_swap)
  have "hasLine PlayerO (board[c := Some PlayerO])"
    using c(3) by (rule checkWinner_Some_hasLine)
  then have o: "hasLine PlayerO (?b[c := Some PlayerO])"
    unfolding swap
  proof (rule hasLine_mono [rotated 2])
    show "j < length (board[c := Some PlayerO])" "board[c := Some PlayerO] ! j = None"
      using j c len by simp_all
  qed
  have "\<not> hasLine PlayerX ?b"
    using none by (simp add: checkWinner_None_iff)
  then have x: "\<not> hasLine PlayerX (?b[c := Some PlayerO])"
    using cj by (simp add: hasLine_update_other)
  have win: "checkWinnerForMiniMax (?b[c := Some PlayerO]) = Some PlayerO"
    using o x by (intro checkWinner_only) (auto simp: other_player)
  have "plainMinimax ?b 0 False = plainMinLoop 0 ?b 0 PosInf"
    using none nfull by (subst plainMinimax.simps) simp
  also have "\<dots> \<le> plainMinimax (?b[c := Some PlayerO]) (0 + 1) True"
    using _ cj(2,1) by (rule plainMinLoop_le_child) simp
  also have "\<dots> = Fin (- 9)"
    using win by (simp add: plainMinimax_terminal)
  finally have "plainMinimax ?b 0 False \<le> Fin (- 9)" .
  with lower show ?thesis
    by (simp add: moveScore_def)
qed

text \<open>The move of \<open>X\<close> on that cell: \<open>O\<close> cannot win on the next move, and the score is
  at least \<open>-8\<close>.\<close>

lemma moveScore_blocked:
  assumes len: "length board = 9" and nw: "checkWinnerForMiniMax board = None"
    and c: "c < 9" "board ! c = None"
    and only: "\<forall>j < 9. j \<noteq> c \<longrightarrow> board ! j = None \<longrightarrow>
      checkWinnerForMiniMax (board[j := Some PlayerO]) \<noteq> Some PlayerO"
    and nx: "checkWinnerForMiniMax (board[c := Some PlayerX]) \<noteq> Some PlayerX"
  shows "Fin (- 8) \<le> moveScore board c"
proof -
  let ?b = "board[c := Some PlayerX]"
  have none: "checkWinnerForMiniMax ?b = None"
    by (rule moveScore_no_win(1) [OF len nw c nx])
  have nox: "\<not> hasLine PlayerX ?b"
    using none by (simp add: checkWinner_None_iff)
  show ?thesis
  proof (cases "isBoardFull ?b")
    case True
    with none show ?thesis
      by (simp add: moveScore_def plainMinimax_terminal)
  next
    case nfull: False
    have child: "Fin (- 8) \<le> plainMinimax (?b[k := Some PlayerO]) (0 + 1) True
        \<and> plainMinimax (?b[k := Some PlayerO]) (0 + 1) True \<le> PosInf"
      if k: "k < length ?b" "?b ! k = None" for k
    proof -
      from k have kc: "k \<noteq> c" "k < 9" "board ! k = None"
        using len c by (auto simp: nth_list_update split: if_splits)
      let ?d = "?b[k := Some PlayerO]"
      have swap: "?d = (board[k := Some PlayerO])[c := Some PlayerX]"
        using kc(1) by (simp add: list_update_swap)
      have "\<not> hasLine PlayerX ?d"
        using nox k by (simp add: hasLine_update_other)
      then have dx: "checkWinnerForMiniMax ?d \<noteq> Some PlayerX"
        using checkWinner_Some_hasLine by blast
      have dO: "checkWinnerForMiniMax ?d \<noteq> Some PlayerO"
      proof
        assume "checkWinnerForMiniMax ?d = Some PlayerO"
        then have "hasLine PlayerO ((board[k := Some PlayerO])[c := Some PlayerX])"
          unfolding swap by (rule checkWinner_Some_hasLine)
        then have o: "hasLine PlayerO (board[k := Some PlayerO])"
          using kc c len by (simp add: hasLine_update_other)
        have "\<not> hasLine PlayerX board"
          using nw by (simp add: checkWinner_None_iff)
        then have "\<not> hasLine PlayerX (board[k := Some PlayerO])"
          using kc len by (simp add: hasLine_update_other)
        with o have "checkWinnerForMiniMax (board[k := Some PlayerO]) = Some PlayerO"
          by (intro checkWinner_only) (auto simp: other_player)
        with only kc show False
          by blast
      qed
      from dx dO winner_cases [of ?d] have dn: "checkWinnerForMiniMax ?d = None"
        by blast
      have "Fin (- 8) \<le> plainMinimax ?d 1 True"
      proof (cases "isBoardFull ?d")
        case True
        with dn show ?thesis
          by (simp add: plainMinimax_terminal)
      next
        case False
        have "(1::int) + int (emptyCount ?d) \<le> 10"
          using emptyCount_nine [of ?d] len by simp
        from plainMinimax_range_nonterminal [OF dn False this, of True] show ?thesis
          by simp
      qed
      then show ?thesis
        by simp
    qed
    from plainMinimax_min_bounds [OF none nfull child] show ?thesis
      by (simp add: moveScore_def)
  qed
qed

lemma forced_block:
  assumes len: "length board = 9" and n: "20 \<le> n"
    and nw: "checkWinnerForMiniMax board = None"
    and c: "c < 9" "board ! c = None"
      "checkWinnerForMiniMax (board[c := Some PlayerO]) = Some PlayerO"
    and only: "\<forall>j < 9. j \<noteq> c \<longrightarrow> board ! j = None \<longrightarrow>
      checkWinnerForMiniMax (board[j := Some PlayerO]) \<noteq> Some PlayerO"
    and nx: "\<forall>j < 9. board ! j = None \<longrightarrow>
      checkWinnerForMiniMax (board[j := Some PlayerX]) \<noteq> Some PlayerX"
  shows "getBestMove n board = Some (int c, board)"
proof -
  have f: "fuelFor board \<le> n"
    using fuelFor_nine [OF len] n by simp
  from plainBestMove_some [of c board] c len obtain k where k: "k < 9" "board ! k = None"
      "plainBestMove board = int k" "moveScore board c \<le> moveScore board k"
    by auto
  have "k = c"
  proof (rule ccontr)
    assume kc: "k \<noteq> c"
    from nx k(1,2) have "checkWinnerForMiniMax (board[k := Some PlayerX]) \<noteq> Some PlayerX"
      by blast
    from moveScore_unblocked [OF len nw c k(1,2) kc this]
    have "moveScore board k = Fin (- 9)" .
    moreover have "Fin (- 8) \<le> moveScore board c"
      using nx c(1,2) by (intro moveScore_blocked [OF len nw c(1,2) only]) blast
    ultimately show False
      using k(4) by (cases "moveScore board c") simp_all
  qed
  with k(3) f show ?thesis
    by (simp add: getBestMove_plain)
qed

lemma below_nine:
  "j < 9 \<longleftrightarrow> j = 0 \<or> j = 1 \<or> j = 2 \<or> j = 3 \<or> j = 4 \<or> j = 5 \<or> j = 6 \<or> j = 7 \<or> j = (8::nat)"
  by arith

lemma reachable_two_pairs:
  "reachable [Some PlayerX, Some PlayerX, None, Some PlayerO, Some PlayerO, None, None, None,
     None] PlayerX"
proof -
  have r1: "reachable [Some PlayerX, None, None, None, None, None, None, None, None] PlayerO"
    using moveX [OF start, of 0]
    by (simp add: checkWinnerForMiniMax_def winPatterns_def cell_def isDraw_def
        isBoardFull_def numeral_eq_Suc)
  have r2: "reachable [Some PlayerX, None, None, Some PlayerO, None, None, None, None, None]
      PlayerX"
    using moveO [OF r1, of 3]
    by (simp add: checkWinnerForMiniMax_def winPatterns_def cell_def isDraw_def
        isBoardFull_def)
  have r3: "reachable [Some PlayerX, Some PlayerX, None, Some PlayerO, None, None, None, None,
      None] PlayerO"
    using moveX [OF r2, of 1]
    by (simp add: checkWinnerForMiniMax_def winPatterns_def cell_def isDraw_def
        isBoardFull_def)
  show ?thesis
    using moveO [OF r3, of 4]
    by (simp add: checkWinnerForMiniMax_def winPatterns_def cell_def isDraw_def
        isBoardFull_def)
qed

lemma bestMove_two_pairs:
  "getBestMove 20 [Some PlayerX, Some PlayerX, None, Some PlayerO, Some PlayerO, None, None,
     None, None]
   = Some (2, [Some PlayerX, Some PlayerX, None, Some PlayerO, Some PlayerO, None, None, None,
     None])"
  by code_simp

text \<open>
  Claim C7. On every board of nine cells without a winner on which exactly one move of
  \<open>X\<close> completes a triple at once, \<open>getBestMove\<close> returns that cell in preference to all
  other moves; in particular it returns \<open>2\<close> on the board \<open>[X,X,_,O,O,_,_,_,_]\<close>.
\<close>

theorem immediate_win_selected:
  assumes "length board = 9" and "20 \<le> n"
    and "checkWinnerForMiniMax board = None" and "\<not> isBoardFull board"
    and "w < 9" and "board ! w = None"
    and "checkWinnerForMiniMax (board[w := Some PlayerX]) = Some PlayerX"
    and "\<forall>j < 9. j \<noteq> w \<longrightarrow> board ! j = None \<longrightarrow>
      checkWinnerForMiniMax (board[j := Some PlayerX]) \<noteq> Some PlayerX"
  shows "getBestMove n board = Some (int w, board)
    \<and> getBestMove n [Some PlayerX, Some PlayerX, None, Some PlayerO, Some PlayerO, None, None,
          None, None]
      = Some (2, [Some PlayerX, Some PlayerX, None, Some PlayerO, Some PlayerO, None, None,
          None, None])"
proof -
  let ?b = "[Some PlayerX, Some PlayerX, None, Some PlayerO, Some PlayerO, None, None, None,
    None]"
  have "fuelFor ?b \<le> 20"
    by (simp add: fuelFor_def emptyCount_def)
  then have "fuelFor ?b \<le> n" "getBestMove 20 ?b = Some (plainBestMove ?b, ?b)"
    using assms(2) by (simp_all only: getBestMove_plain order_trans [of "fuelFor ?b" 20 n])
  then have "getBestMove n ?b = Some (2, ?b)"
    using bestMove_two_pairs by (simp only: getBestMove_plain)
  with immediate_win [OF assms(1,2,3,5,6,7,8)] show ?thesis
    by (rule conjI)
qed

theorem immediate_win_selected_witness:
  "checkWinnerForMiniMax [Some PlayerX, Some PlayerX, None, Some PlayerO, Some PlayerO, None,
      None, None, None] = None
   \<and> \<not> isBoardFull [Some PlayerX, Some PlayerX, None, Some PlayerO, Some PlayerO, None,
      None, None, None]
   \<and> checkWinnerForMiniMax ([Some PlayerX, Some PlayerX, None, Some PlayerO, Some PlayerO, None,
      None, None, None][2 := Some PlayerX]) = Some PlayerX
   \<and> getBestMove 20 [Some PlayerX, Some PlayerX, None, Some PlayerO, Some PlayerO, None, None,
      None, None]
     = Some (int 2, [Some PlayerX, Some PlayerX, None, Some PlayerO, Some PlayerO, None, None,
      None, None])"
proof -
  let ?b = "[Some PlayerX, Some PlayerX, None, Some PlayerO, Some PlayerO, None, None, None,
    None]"
  have l: "length ?b = 9" and n: "(20::nat) \<le> 20" and w: "(2::nat) < 9" "?b ! 2 = None"
    by simp_all
  have nw: "checkWinnerForMiniMax ?b = None"
    by (simp add: checkWinnerForMiniMax_def winPatterns_def cell_def)
  have nf: "\<not> isBoardFull ?b"
    by (simp add: isBoardFull_def)
  have win: "checkWinnerForMiniMax (?b[2 := Some PlayerX]) = Some PlayerX"
    by (simp add: checkWinnerForMiniMax_def winPatterns_def cell_def)
  have only: "\<forall>j < 9. j \<noteq> 2 \<longrightarrow> ?b ! j = None \<longrightarrow>
      checkWinnerForMiniMax (?b[j := Some PlayerX]) \<noteq> Some PlayerX"
    by (auto simp: below_nine checkWinnerForMiniMax_def winPatterns_def cell_def)
  from immediate_win_selected [OF l n nw nf w win only] nw nf win show ?thesis
    by blast
qed

text \<open>
  Claim C8, as stated: on every board without a winner, with \<open>X\<close> to move, on which \<open>O\<close>
  has two marks in a triple whose third cell is empty, \<open>getBestMove\<close> returns that
  blocking cell. It does not when \<open>X\<close> can win at once: on \<open>[X,X,_,O,O,_,_,_,_]\<close>, reached
  with \<open>X\<close> to move, \<open>O\<close> holds cells \<open>3\<close> and \<open>4\<close> of the row \<open>(3, 4, 5)\<close> and cell \<open>5\<close> is
  empty, and \<open>getBestMove\<close> returns \<open>2\<close>.
\<close>

theorem forced_block_counterexample:
  "reachable [Some PlayerX, Some PlayerX, None, Some PlayerO, Some PlayerO, None, None, None,
      None] PlayerX
   \<and> checkWinnerForMiniMax [Some PlayerX, Some PlayerX, None, Some PlayerO, Some PlayerO, None,
      None, None, None] = None
   \<and> \<not> isBoardFull [Some PlayerX, Some PlayerX, None, Some PlayerO, Some PlayerO, None,
      None, None, None]
   \<and> (3, 4, 5) \<in> set winPatterns
   \<and> [Some PlayerX, Some PlayerX, None, Some PlayerO, Some PlayerO, None, None, None, None] ! 3
      = Some PlayerO
   \<and> [Some PlayerX, Some PlayerX, None, Some PlayerO, Some PlayerO, None, None, None, None] ! 4
      = Some PlayerO
   \<and> [Some PlayerX, Some PlayerX, None, Some PlayerO, Some PlayerO, None, None, None, None] ! 5
      = None
   \<and> getBestMove 20 [Some PlayerX, Some PlayerX, None, Some PlayerO, Some PlayerO, None, None,
      None, None]
     = Some (2, [Some PlayerX, Some PlayerX, None, Some PlayerO, Some PlayerO, None, None,
      None, None])
   \<and> getBestMove 20 [Some PlayerX, Some PlayerX, None, Some PlayerO, Some PlayerO, None, None,
      None, None]
     \<noteq> Some (5, [Some PlayerX, Some PlayerX, None, Some PlayerO, Some PlayerO, None, None,
      None, None])"
proof -
  let ?b = "[Some PlayerX, Some PlayerX, None, Some PlayerO, Some PlayerO, None, None, None,
    None]"
  have nw: "checkWinnerForMiniMax ?b = None"
    by (simp add: checkWinnerForMiniMax_def winPatterns_def cell_def)
  have nf: "\<not> isBoardFull ?b"
    by (simp add: isBoardFull_def)
  have row: "(3, 4, 5) \<in> set winPatterns"
    by (simp add: winPatterns_def)
  have cells: "?b ! 3 = Some PlayerO" "?b ! 4 = Some PlayerO" "?b ! 5 = None"
    by simp_all
  have neq: "getBestMove 20 ?b \<noteq> Some (5, ?b)"
    by (simp add: bestMove_two_pairs)
  from reachable_two_pairs nw nf row cells bestMove_two_pairs neq show ?thesis
    by blast
qed

text \<open>
  Claim C8, amended. On every board of nine cells without a winner on which no move of
  \<open>X\<close> completes a triple at once and exactly one cell \<open>c\<close> is such that \<open>O\<close> would complete
  a triple by marking it (\<open>O\<close> has two marks in a triple whose third cell \<open>c\<close> is empty),
  \<open>getBestMove\<close> returns the blocking cell \<open>c\<close>.
\<close>

theorem forced_block_selected:
  assumes "length board = 9" and "20 \<le> n"
    and "checkWinnerForMiniMax board = None"
    and "c < 9" and "board ! c = None"
    and "checkWinnerForMiniMax (board[c := Some PlayerO]) = Some PlayerO"
    and "\<forall>j < 9. j \<noteq> c \<longrightarrow> board ! j = None \<longrightarrow>
      checkWinnerForMiniMax (board[j := Some PlayerO]) \<noteq> Some PlayerO"
    and "\<forall>j < 9. board ! j = None \<longrightarrow>
      checkWinnerForMiniMax (board[j := Some PlayerX]) \<noteq> Some PlayerX"
  shows "getBestMove n board = Some (int c, board)"
  using assms by (rule forced_block)

theorem forced_block_selected_witness:
  "checkWinnerForMiniMax [Some PlayerX, None, None, Some PlayerO, Some PlayerO, None, None,
      None, Some PlayerX] = None
   \<and> checkWinnerForMiniMax ([Some PlayerX, None, None, Some PlayerO, Some PlayerO, None, None,
      None, Some PlayerX][5 := Some PlayerO]) = Some PlayerO
   \<and> getBestMove 20 [Some PlayerX, None, None, Some PlayerO, Some PlayerO, None, None, None,
      Some PlayerX]
     = Some (int 5, [Some PlayerX, None, None, Some PlayerO, Some PlayerO, None, None, None,
      Some PlayerX])"
proof -
  let ?b = "[Some PlayerX, None, None, Some PlayerO, Some PlayerO, None, None, None,
    Some PlayerX]"
  have l: "length ?b = 9" and n: "(20::nat) \<le> 20" and c: "(5::nat) < 9" "?b ! 5 = None"
    by simp_all
  have nw: "checkWinnerForMiniMax ?b = None"
    by (simp add: checkWinnerForMiniMax_def winPatterns_def cell_def)
  have threat: "checkWinnerForMiniMax (?b[5 := Some PlayerO]) = Some PlayerO"
    by (simp add: checkWinnerForMiniMax_def winPatterns_def cell_def)
  have only: "\<forall>j < 9. j \<noteq> 5 \<longrightarrow> ?b ! j = None \<longrightarrow>
      checkWinnerForMiniMax (?b[j := Some PlayerO]) \<noteq> Some PlayerO"
    by (auto simp: below_nine checkWinnerForMiniMax_def winPatterns_def cell_def)
  have nx: "\<forall>j < 9. ?b ! j = None \<longrightarrow>
      checkWinnerForMiniMax (?b[j := Some PlayerX]) \<noteq> Some PlayerX"
    by (auto simp: below_nine checkWinnerForMiniMax_def winPatterns_def cell_def)
  from forced_block_selected [OF l n nw c threat only nx] nw threat show ?thesis
    by blast
qed

section \<open>Evaluating the search on boards of nine cells\<close>

text \<open>
  Equations that unfold \<open>score\<close> one step at a time on a board written out as nine
  cells: the evaluator as a chain of eight tests, and each loop, entered at index \<open>i\<close>,
  either skipping a marked cell or scoring the move on an empty one and handing the
  score to \<open>contMax\<close> or \<open>contMin\<close>, which prune or enter the loop again at \<open>i + 1\<close>.
\<close>

definition scoreW :: "Player option \<Rightarrow> Board \<Rightarrow> int \<Rightarrow> bool \<Rightarrow> Num \<Rightarrow> Num \<Rightarrow> Num" where
  "scoreW w board depth t alpha beta =
     (if w = Some PlayerX then Fin (10 - depth)
      else if w = Some PlayerO then Fin (depth - 10)
      else if isBoardFull board then Fin 0
      else if t then scoreMax 0 board depth NegInf alpha beta
      else scoreMin 0 board depth PosInf alpha beta)"

definition contMax :: "nat \<Rightarrow> Board \<Rightarrow> int \<Rightarrow> Num \<Rightarrow> Num \<Rightarrow> Num \<Rightarrow> Num \<Rightarrow> Num" where
  "contMax j board depth bestScore alpha beta s =
     (if beta \<le> max alpha s then max s bestScore
      else scoreMax j board depth (max s bestScore) (max alpha s) beta)"

definition contMin :: "nat \<Rightarrow> Board \<Rightarrow> int \<Rightarrow> Num \<Rightarrow> Num \<Rightarrow> Num \<Rightarrow> Num \<Rightarrow> Num" where
  "contMin j board depth bestScore alpha beta s =
     (if min beta s \<le> alpha then min s bestScore
      else scoreMin j board depth (min s bestScore) alpha (min beta s))"

definition contBest :: "nat \<Rightarrow> Board \<Rightarrow> Num \<Rightarrow> int \<Rightarrow> int \<Rightarrow> Num \<Rightarrow> int" where
  "contBest j board bestScore m i s =
     (if bestScore < s then bestFrom j board s i else bestFrom j board bestScore m)"

lemma score_W:
  "score board depth t alpha beta
   = scoreW (checkWinnerForMiniMax board) board depth t alpha beta"
  by (subst score.simps) (simp add: scoreW_def)

lemma scoreW_X: "scoreW (Some PlayerX) board depth t alpha beta = Fin (10 - depth)"
  by (simp add: scoreW_def)

lemma scoreW_O: "scoreW (Some PlayerO) board depth t alpha beta = Fin (depth - 10)"
  by (simp add: scoreW_def)

lemma scoreW_N_max:
  "scoreW None board depth True alpha beta
   = (if isBoardFull board then Fin 0 else scoreMax 0 board depth NegInf alpha beta)"
  by (simp add: scoreW_def)

lemma scoreW_N_min:
  "scoreW None board depth False alpha beta
   = (if isBoardFull board then Fin 0 else scoreMin 0 board depth PosInf alpha beta)"
  by (simp add: scoreW_def)

lemma win9:
  "checkWinnerForMiniMax [a, b, c, d, e, f, g, h, k] =
    (if a \<noteq> None \<and> a = b \<and> a = c then a
     else if d \<noteq> None \<and> d = e \<and> d = f then d
     else if g \<noteq> None \<and> g = h \<and> g = k then g
     else if a \<noteq> None \<and> a = d \<and> a = g then a
     else if b \<noteq> None \<and> b = e \<and> b = h then b
     else if c \<noteq> None \<and> c = f \<and> c = k then c
     else if a \<noteq> None \<and> a = e \<and> a = k then a
     else if c \<noteq> None \<and> c = e \<and> c = g then c
     else None)"
  by (simp add: checkWinnerForMiniMax_def winPatterns_def cell_def
      split del: if_split cong: if_cong)

lemma full9:
  "isBoardFull [a, b, c, d, e, f, g, h, k] =
    (a \<noteq> None \<and> b \<noteq> None \<and> c \<noteq> None \<and> d \<noteq> None \<and> e \<noteq> None \<and> f \<noteq> None
     \<and> g \<noteq> None \<and> h \<noteq> None \<and> k \<noteq> None)"
  by (simp add: isBoardFull_def)

lemma scoreMax_N:
  "i < length board \<Longrightarrow> board ! i = None \<Longrightarrow> j = i + 1 \<Longrightarrow>
   scoreMax i board depth bestScore alpha beta
   = contMax j board depth bestScore alpha beta
       (score (board[i := Some PlayerX]) (depth + 1) False alpha beta)"
  by (subst scoreMax.simps) (simp add: contMax_def Let_def)

lemma scoreMax_S:
  "i < length board \<Longrightarrow> board ! i = Some p \<Longrightarrow> j = i + 1 \<Longrightarrow>
   scoreMax i board depth bestScore alpha beta = scoreMax j board depth bestScore alpha beta"
  by (subst scoreMax.simps) simp

lemma scoreMax_E:
  "length board = i \<Longrightarrow> scoreMax i board depth bestScore alpha beta = bestScore"
  by (subst scoreMax.simps) simp

lemma scoreMin_N:
  "i < length board \<Longrightarrow> board ! i = None \<Longrightarrow> j = i + 1 \<Longrightarrow>
   scoreMin i board depth bestScore alpha beta
   = contMin j board depth bestScore alpha beta
       (score (board[i := Some PlayerO]) (depth + 1) True alpha beta)"
  by (subst scoreMin.simps) (simp add: contMin_def Let_def)

lemma scoreMin_S:
  "i < length board \<Longrightarrow> board ! i = Some p \<Longrightarrow> j = i + 1 \<Longrightarrow>
   scoreMin i board depth bestScore alpha beta = scoreMin j board depth bestScore alpha beta"
  by (subst scoreMin.simps) simp

lemma scoreMin_E:
  "length board = i \<Longrightarrow> scoreMin i board depth bestScore alpha beta = bestScore"
  by (subst scoreMin.simps) simp

lemma bestFrom_N:
  "i < length board \<Longrightarrow> board ! i = None \<Longrightarrow> j = i + 1 \<Longrightarrow>
   bestFrom i board bestScore m
   = contBest j board bestScore m (int i)
       (score (board[i := Some PlayerX]) 0 False NegInf PosInf)"
  by (subst bestFrom.simps) (simp add: contBest_def Let_def)

lemma bestFrom_S:
  "i < length board \<Longrightarrow> board ! i = Some p \<Longrightarrow> j = i + 1 \<Longrightarrow>
   bestFrom i board bestScore m = bestFrom j board bestScore m"
  by (subst bestFrom.simps) simp

lemma bestFrom_E: "length board = i \<Longrightarrow> bestFrom i board bestScore m = m"
  by (subst bestFrom.simps) simp

lemma scoreMax_0_N:
  "scoreMax 0 [None, b, c, d, e, f, g, h, k] depth bestScore alpha beta
   = contMax (Suc 0) [None, b, c, d, e, f, g, h, k] depth bestScore alpha beta
       (score [Some PlayerX, b, c, d, e, f, g, h, k] (depth + 1) False alpha beta)"
  by (rule scoreMax_N [THEN trans]) simp_all

lemma scoreMax_0_S:
  "scoreMax 0 [Some p, b, c, d, e, f, g, h, k] depth bestScore alpha beta
   = scoreMax (Suc 0) [Some p, b, c, d, e, f, g, h, k] depth bestScore alpha beta"
  by (rule scoreMax_S [THEN trans]) simp_all

lemma scoreMax_1_N:
  "scoreMax (Suc 0) [a, None, c, d, e, f, g, h, k] depth bestScore alpha beta
   = contMax 2 [a, None, c, d, e, f, g, h, k] depth bestScore alpha beta
       (score [a, Some PlayerX, c, d, e, f, g, h, k] (depth + 1) False alpha beta)"
  by (rule scoreMax_N [THEN trans]) simp_all

lemma scoreMax_1_S:
  "scoreMax (Suc 0) [a, Some p, c, d, e, f, g, h, k] depth bestScore alpha beta
   = scoreMax 2 [a, Some p, c, d, e, f, g, h, k] depth bestScore alpha beta"
  by (rule scoreMax_S [THEN trans]) simp_all

lemma scoreMax_2_N:
  "scoreMax 2 [a, b, None, d, e, f, g, h, k] depth bestScore alpha beta
   = contMax 3 [a, b, None, d, e, f, g, h, k] depth bestScore alpha beta
       (score [a, b, Some PlayerX, d, e, f, g, h, k] (depth + 1) False alpha beta)"
  by (rule scoreMax_N [THEN trans]) simp_all

lemma scoreMax_2_S:
  "scoreMax 2 [a, b, Some p, d, e, f, g, h, k] depth bestScore alpha beta
   = scoreMax 3 [a, b, Some p, d, e, f, g, h, k] depth bestScore alpha beta"
  by (rule scoreMax_S [THEN trans]) simp_all

lemma scoreMax_3_N:
  "scoreMax 3 [a, b, c, None, e, f, g, h, k] depth bestScore alpha beta
   = contMax 4 [a, b, c, None, e, f, g, h, k] depth bestScore alpha beta
       (score [a, b, c, Some PlayerX, e, f, g, h, k] (depth + 1) False alpha beta)"
  by (rule scoreMax_N [THEN trans]) simp_all

lemma scoreMax_3_S:
  "scoreMax 3 [a, b, c, Some p, e, f, g, h, k] depth bestScore alpha beta
   = scoreMax 4 [a, b, c, Some p, e, f, g, h, k] depth bestScore alpha beta"
  by (rule scoreMax_S [THEN trans]) simp_all

lemma scoreMax_4_N:
  "scoreMax 4 [a, b, c, d, None, f, g, h, k] depth bestScore alpha beta
   = contMax 5 [a, b, c, d, None, f, g, h, k] depth bestScore alpha beta
       (score [a, b, c, d, Some PlayerX, f, g, h, k] (depth + 1) False alpha beta)"
  by (rule scoreMax_N [THEN trans]) simp_all

lemma scoreMax_4_S:
  "scoreMax 4 [a, b, c, d, Some p, f, g, h, k] depth bestScore alpha beta
   = scoreMax 5 [a, b, c, d, Some p, f, g, h, k] depth bestScore alpha beta"
  by (rule scoreMax_S [THEN trans]) simp_all

lemma scoreMax_5_N:
  "scoreMax 5 [a, b, c, d, e, None, g, h, k] depth bestScore alpha beta
   = contMax 6 [a, b, c, d, e, None, g, h, k] depth bestScore alpha beta
       (score [a, b, c, d, e, Some PlayerX, g, h, k] (depth + 1) False alpha beta)"
  by (rule scoreMax_N [THEN trans]) simp_all

lemma scoreMax_5_S:
  "scoreMax 5 [a, b, c, d, e, Some p, g, h, k] depth bestScore alpha beta
   = scoreMax 6 [a, b, c, d, e, Some p, g, h, k] depth bestScore alpha beta"
  by (rule scoreMax_S [THEN trans]) simp_all

lemma scoreMax_6_N:
  "scoreMax 6 [a, b, c, d, e, f, None, h, k] depth bestScore alpha beta
   = contMax 7 [a, b, c, d, e, f, None, h, k] depth bestScore alpha beta
       (score [a, b, c, d, e, f, Some PlayerX, h, k] (depth + 1) False alpha beta)"
  by (rule scoreMax_N [THEN trans]) simp_all

lemma scoreMax_6_S:
  "scoreMax 6 [a, b, c, d, e, f, Some p, h, k] depth bestScore alpha beta
   = scoreMax 7 [a, b, c, d, e, f, Some p, h, k] depth bestScore alpha beta"
  by (rule scoreMax_S [THEN trans]) simp_all

lemma scoreMax_7_N:
  "scoreMax 7 [a, b, c, d, e, f, g, None, k] depth bestScore alpha beta
   = contMax 8 [a, b, c, d, e, f, g, None, k] depth bestScore alpha beta
       (score [a, b, c, d, e, f, g, Some PlayerX, k] (depth + 1) False alpha beta)"
  by (rule scoreMax_N [THEN trans]) simp_all

lemma scoreMax_7_S:
  "scoreMax 7 [a, b, c, d, e, f, g, Some p, k] depth bestScore alpha beta
   = scoreMax 8 [a, b, c, d, e, f, g, Some p, k] depth bestScore alpha beta"
  by (rule scoreMax_S [THEN trans]) simp_all

lemma scoreMax_8_N:
  "scoreMax 8 [a, b, c, d, e, f, g, h, None] depth bestScore alpha beta
   = contMax 9 [a, b, c, d, e, f, g, h, None] depth bestScore alpha beta
       (score [a, b, c, d, e, f, g, h, Some PlayerX] (depth + 1) False alpha beta)"
  by (rule scoreMax_N [THEN trans]) simp_all

lemma scoreMax_8_S:
  "scoreMax 8 [a, b, c, d, e, f, g, h, Some p] depth bestScore alpha beta
   = scoreMax 9 [a, b, c, d, e, f, g, h, Some p] depth bestScore alpha beta"
  by (rule scoreMax_S [THEN trans]) simp_all

lemma scoreMax_9:
  "scoreMax 9 [a, b, c, d, e, f, g, h, k] depth bestScore alpha beta = bestScore"
  by (rule scoreMax_E) simp

lemma scoreMin_0_N:
  "scoreMin 0 [None, b, c, d, e, f, g, h, k] depth bestScore alpha beta
   = contMin (Suc 0) [None, b, c, d, e, f, g, h, k] depth bestScore alpha beta
       (score [Some PlayerO, b, c, d, e, f, g, h, k] (depth + 1) True alpha beta)"
  by (rule scoreMin_N [THEN trans]) simp_all

lemma scoreMin_0_S:
  "scoreMin 0 [Some p, b, c, d, e, f, g, h, k] depth bestScore alpha beta
   = scoreMin (Suc 0) [Some p, b, c, d, e, f, g, h, k] depth bestScore alpha beta"
  by (rule scoreMin_S [THEN trans]) simp_all

lemma scoreMin_1_N:
  "scoreMin (Suc 0) [a, None, c, d, e, f, g, h, k] depth bestScore alpha beta
   = contMin 2 [a, None, c, d, e, f, g, h, k] depth bestScore alpha beta
       (score [a, Some PlayerO, c, d, e, f, g, h, k] (depth + 1) True alpha beta)"
  by (rule scoreMin_N [THEN trans]) simp_all

lemma scoreMin_1_S:
  "scoreMin (Suc 0) [a, Some p, c, d, e, f, g, h, k] depth bestScore alpha beta
   = scoreMin 2 [a, Some p, c, d, e, f, g, h, k] depth bestScore alpha beta"
  by (rule scoreMin_S [THEN trans]) simp_all

lemma scoreMin_2_N:
  "scoreMin 2 [a, b, None, d, e, f, g, h, k] depth bestScore alpha beta
   = contMin 3 [a, b, None, d, e, f, g, h, k] depth bestScore alpha beta
       (score [a, b, Some PlayerO, d, e, f, g, h, k] (depth + 1) True alpha beta)"
  by (rule scoreMin_N [THEN trans]) simp_all

lemma scoreMin_2_S:
  "scoreMin 2 [a, b, Some p, d, e, f, g, h, k] depth bestScore alpha beta
   = scoreMin 3 [a, b, Some p, d, e, f, g, h, k] depth bestScore alpha beta"
  by (rule scoreMin_S [THEN trans]) simp_all

lemma scoreMin_3_N:
  "scoreMin 3 [a, b, c, None, e, f, g, h, k] depth bestScore alpha beta
   = contMin 4 [a, b, c, None, e, f, g, h, k] depth bestScore alpha beta
       (score [a, b, c, Some PlayerO, e, f, g, h, k] (depth + 1) True alpha beta)"
  by (rule scoreMin_N [THEN trans]) simp_all

lemma scoreMin_3_S:
  "scoreMin 3 [a, b, c, Some p, e, f, g, h, k] depth bestScore alpha beta
   = scoreMin 4 [a, b, c, Some p, e, f, g, h, k] depth bestScore alpha beta"
  by (rule scoreMin_S [THEN trans]) simp_all

lemma scoreMin_4_N:
  "scoreMin 4 [a, b, c, d, None, f, g, h, k] depth bestScore alpha beta
   = contMin 5 [a, b, c, d, None, f, g, h, k] depth bestScore alpha beta
       (score [a, b, c, d, Some PlayerO, f, g, h, k] (depth + 1) True alpha beta)"
  by (rule scoreMin_N [THEN trans]) simp_all

lemma scoreMin_4_S:
  "scoreMin 4 [a, b, c, d, Some p, f, g, h, k] depth bestScore alpha beta
   = scoreMin 5 [a, b, c, d, Some p, f, g, h, k] depth bestScore alpha beta"
  by (rule scoreMin_S [THEN trans]) simp_all

lemma scoreMin_5_N:
  "scoreMin 5 [a, b, c, d, e, None, g, h, k] depth bestScore alpha beta
   = contMin 6 [a, b, c, d, e, None, g, h, k] depth bestScore alpha beta
       (score [a, b, c, d, e, Some PlayerO, g, h, k] (depth + 1) True alpha beta)"
  by (rule scoreMin_N [THEN trans]) simp_all

lemma scoreMin_5_S:
  "scoreMin 5 [a, b, c, d, e, Some p, g, h, k] depth bestScore alpha beta
   = scoreMin 6 [a, b, c, d, e, Some p, g, h, k] depth bestScore alpha beta"
  by (rule scoreMin_S [THEN trans]) simp_all

lemma scoreMin_6_N:
  "scoreMin 6 [a, b, c, d, e, f, None, h, k] depth bestScore alpha beta
   = contMin 7 [a, b, c, d, e, f, None, h, k] depth bestScore alpha beta
       (score [a, b, c, d, e, f, Some PlayerO, h, k] (depth + 1) True alpha beta)"
  by (rule scoreMin_N [THEN trans]) simp_all

lemma scoreMin_6_S:
  "scoreMin 6 [a, b, c, d, e, f, Some p, h, k] depth bestScore alpha beta
   = scoreMin 7 [a, b, c, d, e, f, Some p, h, k] depth bestScore alpha beta"
  by (rule scoreMin_S [THEN trans]) simp_all

lemma scoreMin_7_N:
  "scoreMin 7 [a, b, c, d, e, f, g, None, k] depth bestScore alpha beta
   = contMin 8 [a, b, c, d, e, f, g, None, k] depth bestScore alpha beta
       (score [a, b, c, d, e, f, g, Some PlayerO, k] (depth + 1) True alpha beta)"
  by (rule scoreMin_N [THEN trans]) simp_all

lemma scoreMin_7_S:
  "scoreMin 7 [a, b, c, d, e, f, g, Some p, k] depth bestScore alpha beta
   = scoreMin 8 [a, b, c, d, e, f, g, Some p, k] depth bestScore alpha beta"
  by (rule scoreMin_S [THEN trans]) simp_all

lemma scoreMin_8_N:
  "scoreMin 8 [a, b, c, d, e, f, g, h, None] depth bestScore alpha beta
   = contMin 9 [a, b, c, d, e, f, g, h, None] depth bestScore alpha beta
       (score [a, b, c, d, e, f, g, h, Some PlayerO] (depth + 1) True alpha beta)"
  by (rule scoreMin_N [THEN trans]) simp_all

lemma scoreMin_8_S:
  "scoreMin 8 [a, b, c, d, e, f, g, h, Some p] depth bestScore alpha beta
   = scoreMin 9 [a, b, c, d, e, f, g, h, Some p] depth bestScore alpha beta"
  by (rule scoreMin_S [THEN trans]) simp_all

lemma scoreMin_9:
  "scoreMin 9 [a, b, c, d, e, f, g, h, k] depth bestScore alpha beta = bestScore"
  by (rule scoreMin_E) simp

lemma bestFrom_0_N:
  "bestFrom 0 [None, b, c, d, e, f, g, h, k] bestScore m
   = contBest (Suc 0) [None, b, c, d, e, f, g, h, k] bestScore m 0
       (score [Some PlayerX, b, c, d, e, f, g, h, k] 0 False NegInf PosInf)"
  by (rule bestFrom_N [THEN trans]) simp_all

lemma bestFrom_0_S:
  "bestFrom 0 [Some p, b, c, d, e, f, g, h, k] bestScore m = bestFrom (Suc 0) [Some p, b, c, d, e, f, g, h, k] bestScore m"
  by (rule bestFrom_S [THEN trans]) simp_all

lemma bestFrom_1_N:
  "bestFrom (Suc 0) [a, None, c, d, e, f, g, h, k] bestScore m
   = contBest 2 [a, None, c, d, e, f, g, h, k] bestScore m 1
       (score [a, Some PlayerX, c, d, e, f, g, h, k] 0 False NegInf PosInf)"
  by (rule bestFrom_N [THEN trans]) simp_all

lemma bestFrom_1_S:
  "bestFrom (Suc 0) [a, Some p, c, d, e, f, g, h, k] bestScore m = bestFrom 2 [a, Some p, c, d, e, f, g, h, k] bestScore m"
  by (rule bestFrom_S [THEN trans]) simp_all

lemma bestFrom_2_N:
  "bestFrom 2 [a, b, None, d, e, f, g, h, k] bestScore m
   = contBest 3 [a, b, None, d, e, f, g, h, k] bestScore m 2
       (score [a, b, Some PlayerX, d, e, f, g, h, k] 0 False NegInf PosInf)"
  by (rule bestFrom_N [THEN trans]) simp_all

lemma bestFrom_2_S:
  "bestFrom 2 [a, b, Some p, d, e, f, g, h, k] bestScore m = bestFrom 3 [a, b, Some p, d, e, f, g, h, k] bestScore m"
  by (rule bestFrom_S [THEN trans]) simp_all

lemma bestFrom_3_N:
  "bestFrom 3 [a, b, c, None, e, f, g, h, k] bestScore m
   = contBest 4 [a, b, c, None, e, f, g, h, k] bestScore m 3
       (score [a, b, c, Some PlayerX, e, f, g, h, k] 0 False NegInf PosInf)"
  by (rule bestFrom_N [THEN trans]) simp_all

lemma bestFrom_3_S:
  "bestFrom 3 [a, b, c, Some p, e, f, g, h, k] bestScore m = bestFrom 4 [a, b, c, Some p, e, f, g, h, k] bestScore m"
  by (rule bestFrom_S [THEN trans]) simp_all

lemma bestFrom_4_N:
  "bestFrom 4 [a, b, c, d, None, f, g, h, k] bestScore m
   = contBest 5 [a, b, c, d, None, f, g, h, k] bestScore m 4
       (score [a, b, c, d, Some PlayerX, f, g, h, k] 0 False NegInf PosInf)"
  by (rule bestFrom_N [THEN trans]) simp_all

lemma bestFrom_4_S:
  "bestFrom 4 [a, b, c, d, Some p, f, g, h, k] bestScore m = bestFrom 5 [a, b, c, d, Some p, f, g, h, k] bestScore m"
  by (rule bestFrom_S [THEN trans]) simp_all

lemma bestFrom_5_N:
  "bestFrom 5 [a, b, c, d, e, None, g, h, k] bestScore m
   = contBest 6 [a, b, c, d, e, None, g, h, k] bestScore m 5
       (score [a, b, c, d, e, Some PlayerX, g, h, k] 0 False NegInf PosInf)"
  by (rule bestFrom_N [THEN trans]) simp_all

lemma bestFrom_5_S:
  "bestFrom 5 [a, b, c, d, e, Some p, g, h, k] bestScore m = bestFrom 6 [a, b, c, d, e, Some p, g, h, k] bestScore m"
  by (rule bestFrom_S [THEN trans]) simp_all

lemma bestFrom_6_N:
  "bestFrom 6 [a, b, c, d, e, f, None, h, k] bestScore m
   = contBest 7 [a, b, c, d, e, f, None, h, k] bestScore m 6
       (score [a, b, c, d, e, f, Some PlayerX, h, k] 0 False NegInf PosInf)"
  by (rule bestFrom_N [THEN trans]) simp_all

lemma bestFrom_6_S:
  "bestFrom 6 [a, b, c, d, e, f, Some p, h, k] bestScore m = bestFrom 7 [a, b, c, d, e, f, Some p, h, k] bestScore m"
  by (rule bestFrom_S [THEN trans]) simp_all

lemma bestFrom_7_N:
  "bestFrom 7 [a, b, c, d, e, f, g, None, k] bestScore m
   = contBest 8 [a, b, c, d, e, f, g, None, k] bestScore m 7
       (score [a, b, c, d, e, f, g, Some PlayerX, k] 0 False NegInf PosInf)"
  by (rule bestFrom_N [THEN trans]) simp_all

lemma bestFrom_7_S:
  "bestFrom 7 [a, b, c, d, e, f, g, Some p, k] bestScore m = bestFrom 8 [a, b, c, d, e, f, g, Some p, k] bestScore m"
  by (rule bestFrom_S [THEN trans]) simp_all

lemma bestFrom_8_N:
  "bestFrom 8 [a, b, c, d, e, f, g, h, None] bestScore m
   = contBest 9 [a, b, c, d, e, f, g, h, None] bestScore m 8
       (score [a, b, c, d, e, f, g, h, Some PlayerX] 0 False NegInf PosInf)"
  by (rule bestFrom_N [THEN trans]) simp_all

lemma bestFrom_8_S:
  "bestFrom 8 [a, b, c, d, e, f, g, h, Some p] bestScore m = bestFrom 9 [a, b, c, d, e, f, g, h, Some p] bestScore m"
  by (rule bestFrom_S [THEN trans]) simp_all

lemma bestFrom_9: "bestFrom 9 [a, b, c, d, e, f, g, h, k] bestScore m = m"
  by (rule bestFrom_E) simp

lemmas eval_score =
  score_W scoreW_X scoreW_O scoreW_N_max scoreW_N_min win9 full9 contMax_def contMin_def
  less_Num_def
  scoreMax_0_N scoreMax_0_S scoreMax_1_N scoreMax_1_S scoreMax_2_N scoreMax_2_S
  scoreMax_3_N scoreMax_3_S scoreMax_4_N scoreMax_4_S scoreMax_5_N scoreMax_5_S
  scoreMax_6_N scoreMax_6_S scoreMax_7_N scoreMax_7_S scoreMax_8_N scoreMax_8_S scoreMax_9
  scoreMin_0_N scoreMin_0_S scoreMin_1_N scoreMin_1_S scoreMin_2_N scoreMin_2_S
  scoreMin_3_N scoreMin_3_S scoreMin_4_N scoreMin_4_S scoreMin_5_N scoreMin_5_S
  scoreMin_6_N scoreMin_6_S scoreMin_7_N scoreMin_7_S scoreMin_8_N scoreMin_8_S scoreMin_9

lemmas eval_best =
  bestMove_def contBest_def less_Num_def
  bestFrom_0_N bestFrom_0_S bestFrom_1_N bestFrom_1_S bestFrom_2_N bestFrom_2_S
  bestFrom_3_N bestFrom_3_S bestFrom_4_N bestFrom_4_S bestFrom_5_N bestFrom_5_S
  bestFrom_6_N bestFrom_6_S bestFrom_7_N bestFrom_7_S bestFrom_8_N bestFrom_8_S bestFrom_9

section \<open>The scores along the game of the engine against itself\<close>

text \<open>
  For each position of the game, seen by the player to move as \<open>X\<close>, the score of every
  move, computed by unfolding the search, and the move that \<open>getBestMove\<close> selects.
\<close>

lemma score_0_0:
  "score [Some PlayerX, None, None,
         None, None, None,
         None, None, None] 0 False NegInf PosInf
   = Fin 0"
  by (simp add: eval_score)

lemma score_0_1:
  "score [None, Some PlayerX, None,
         None, None, None,
         None, None, None] 0 False NegInf PosInf
   = Fin 0"
  by (simp add: eval_score)

lemma score_0_2:
  "score [None, None, Some PlayerX,
         None, None, None,
         None, None, None] 0 False NegInf PosInf
   = Fin 0"
  by (simp add: eval_score)

lemma score_0_3:
  "score [None, None, None,
         Some PlayerX, None, None,
         None, None, None] 0 False NegInf PosInf
   = Fin 0"
  by (simp add: eval_score)

lemma score_0_4:
  "score [None, None, None,
         None, Some PlayerX, None,
         None, None, None] 0 False NegInf PosInf
   = Fin 0"
  by (simp add: eval_score)

lemma score_0_5:
  "score [None, None, None,
         None, None, Some PlayerX,
         None, None, None] 0 False NegInf PosInf
   = Fin 0"
  by (simp add: eval_score)

lemma score_0_6:
  "score [None, None, None,
         None, None, None,
         Some PlayerX, None, None] 0 False NegInf PosInf
   = Fin 0"
  by (simp add: eval_score)

lemma score_0_7:
  "score [None, None, None,
         None, None, None,
         None, Some PlayerX, None] 0 False NegInf PosInf
   = Fin 0"
  by (simp add: eval_score)

lemma score_0_8:
  "score [None, None, None,
         None, None, None,
         None, None, Some PlayerX] 0 False NegInf PosInf
   = Fin 0"
  by (simp add: eval_score)

lemma bestMove_0:
  "bestMove [None, None, None,
            None, None, None,
            None, None, None] = 0"
  by (simp add: eval_best
      score_0_0 score_0_1 score_0_2 score_0_3 score_0_4 score_0_5 score_0_6 score_0_7
      score_0_8)

lemma score_1_1:
  "score [Some PlayerO, Some PlayerX, None,
         None, None, None,
         None, None, None] 0 False NegInf PosInf
   = Fin (- 5)"
  by (simp add: eval_score)

lemma score_1_2:
  "score [Some PlayerO, None, Some PlayerX,
         None, None, None,
         None, None, None] 0 False NegInf PosInf
   = Fin (- 5)"
  by (simp add: eval_score)

lemma score_1_3:
  "score [Some PlayerO, None, None,
         Some PlayerX, None, None,
         None, None, None] 0 False NegInf PosInf
   = Fin (- 5)"
  by (simp add: eval_score)

lemma score_1_4:
  "score [Some PlayerO, None, None,
         None, Some PlayerX, None,
         None, None, None] 0 False NegInf PosInf
   = Fin 0"
  by (simp add: eval_score)

lemma score_1_5:
  "score [Some PlayerO, None, None,
         None, None, Some PlayerX,
         None, None, None] 0 False NegInf PosInf
   = Fin (- 5)"
  by (simp add: eval_score)

lemma score_1_6:
  "score [Some PlayerO, None, None,
         None, None, None,
         Some PlayerX, None, None] 0 False NegInf PosInf
   = Fin (- 5)"
  by (simp add: eval_score)

lemma score_1_7:
  "score [Some PlayerO, None, None,
         None, None, None,
         None, Some PlayerX, None] 0 False NegInf PosInf
   = Fin (- 5)"
  by (simp add: eval_score)

lemma score_1_8:
  "score [Some PlayerO, None, None,
         None, None, None,
         None, None, Some PlayerX] 0 False NegInf PosInf
   = Fin (- 5)"
  by (simp add: eval_score)

lemma bestMove_1:
  "bestMove [Some PlayerO, None, None,
            None, None, None,
            None, None, None] = 4"
  by (simp add: eval_best
      score_1_1 score_1_2 score_1_3 score_1_4 score_1_5 score_1_6 score_1_7 score_1_8)

lemma score_2_1:
  "score [Some PlayerX, Some PlayerX, None,
         None, Some PlayerO, None,
         None, None, None] 0 False NegInf PosInf
   = Fin 0"
  by (simp add: eval_score)

lemma score_2_2:
  "score [Some PlayerX, None, Some PlayerX,
         None, Some PlayerO, None,
         None, None, None] 0 False NegInf PosInf
   = Fin 0"
  by (simp add: eval_score)

lemma score_2_3:
  "score [Some PlayerX, None, None,
         Some PlayerX, Some PlayerO, None,
         None, None, None] 0 False NegInf PosInf
   = Fin 0"
  by (simp add: eval_score)

lemma score_2_5:
  "score [Some PlayerX, None, None,
         None, Some PlayerO, Some PlayerX,
         None, None, None] 0 False NegInf PosInf
   = Fin 0"
  by (simp add: eval_score)

lemma score_2_6:
  "score [Some PlayerX, None, None,
         None, Some PlayerO, None,
         Some PlayerX, None, None] 0 False NegInf PosInf
   = Fin 0"
  by (simp add: eval_score)

lemma score_2_7:
  "score [Some PlayerX, None, None,
         None, Some PlayerO, None,
         None, Some PlayerX, None] 0 False NegInf PosInf
   = Fin 0"
  by (simp add: eval_score)

lemma score_2_8:
  "score [Some PlayerX, None, None,
         None, Some PlayerO, None,
         None, None, Some PlayerX] 0 False NegInf PosInf
   = Fin 0"
  by (simp add: eval_score)

lemma bestMove_2:
  "bestMove [Some PlayerX, None, None,
            None, Some PlayerO, None,
            None, None, None] = 1"
  by (simp add: eval_best
      score_2_1 score_2_2 score_2_3 score_2_5 score_2_6 score_2_7 score_2_8)

lemma score_3_2:
  "score [Some PlayerO, Some PlayerO, Some PlayerX,
         None, Some PlayerX, None,
         None, None, None] 0 False NegInf PosInf
   = Fin 0"
  by (simp add: eval_score)

lemma score_3_3:
  "score [Some PlayerO, Some PlayerO, None,
         Some PlayerX, Some PlayerX, None,
         None, None, None] 0 False NegInf PosInf
   = Fin (- 9)"
  by (simp add: eval_score)

lemma score_3_5:
  "score [Some PlayerO, Some PlayerO, None,
         None, Some PlayerX, Some PlayerX,
         None, None, None] 0 False NegInf PosInf
   = Fin (- 9)"
  by (simp add: eval_score)

lemma score_3_6:
  "score [Some PlayerO, Some PlayerO, None,
         None, Some PlayerX, None,
         Some PlayerX, None, None] 0 False NegInf PosInf
   = Fin (- 9)"
  by (simp add: eval_score)

lemma score_3_7:
  "score [Some PlayerO, Some PlayerO, None,
         None, Some PlayerX, None,
         None, Some PlayerX, None] 0 False NegInf PosInf
   = Fin (- 9)"
  by (simp add: eval_score)

lemma score_3_8:
  "score [Some PlayerO, Some PlayerO, None,
         None, Some PlayerX, None,
         None, None, Some PlayerX] 0 False NegInf PosInf
   = Fin (- 9)"
  by (simp add: eval_score)

lemma bestMove_3:
  "bestMove [Some PlayerO, Some PlayerO, None,
            None, Some PlayerX, None,
            None, None, None] = 2"
  by (simp add: eval_best
      score_3_2 score_3_3 score_3_5 score_3_6 score_3_7 score_3_8)

lemma score_4_3:
  "score [Some PlayerX, Some PlayerX, Some PlayerO,
         Some PlayerX, Some PlayerO, None,
         None, None, None] 0 False NegInf PosInf
   = Fin (- 9)"
  by (simp add: eval_score)

lemma score_4_5:
  "score [Some PlayerX, Some PlayerX, Some PlayerO,
         None, Some PlayerO, Some PlayerX,
         None, None, None] 0 False NegInf PosInf
   = Fin (- 9)"
  by (simp add: eval_score)

lemma score_4_6:
  "score [Some PlayerX, Some PlayerX, Some PlayerO,
         None, Some PlayerO, None,
         Some PlayerX, None, None] 0 False NegInf PosInf
   = Fin 0"
  by (simp add: eval_score)

lemma score_4_7:
  "score [Some PlayerX, Some PlayerX, Some PlayerO,
         None, Some PlayerO, None,
         None, Some PlayerX, None] 0 False NegInf PosInf
   = Fin (- 9)"
  by (simp add: eval_score)

lemma score_4_8:
  "score [Some PlayerX, Some PlayerX, Some PlayerO,
         None, Some PlayerO, None,
         None, None, Some PlayerX] 0 False NegInf PosInf
   = Fin (- 9)"
  by (simp add: eval_score)

lemma bestMove_4:
  "bestMove [Some PlayerX, Some PlayerX, Some PlayerO,
            None, Some PlayerO, None,
            None, None, None] = 6"
  by (simp add: eval_best
      score_4_3 score_4_5 score_4_6 score_4_7 score_4_8)

lemma score_5_3:
  "score [Some PlayerO, Some PlayerO, Some PlayerX,
         Some PlayerX, Some PlayerX, None,
         Some PlayerO, None, None] 0 False NegInf PosInf
   = Fin 0"
  by (simp add: eval_score)

lemma score_5_5:
  "score [Some PlayerO, Some PlayerO, Some PlayerX,
         None, Some PlayerX, Some PlayerX,
         Some PlayerO, None, None] 0 False NegInf PosInf
   = Fin (- 9)"
  by (simp add: eval_score)

lemma score_5_7:
  "score [Some PlayerO, Some PlayerO, Some PlayerX,
         None, Some PlayerX, None,
         Some PlayerO, Some PlayerX, None] 0 False NegInf PosInf
   = Fin (- 9)"
  by (simp add: eval_score)

lemma score_5_8:
  "score [Some PlayerO, Some PlayerO, Some PlayerX,
         None, Some PlayerX, None,
         Some PlayerO, None, Some PlayerX] 0 False NegInf PosInf
   = Fin (- 9)"
  by (simp add: eval_score)

lemma bestMove_5:
  "bestMove [Some PlayerO, Some PlayerO, Some PlayerX,
            None, Some PlayerX, None,
            Some PlayerO, None, None] = 3"
  by (simp add: eval_best
      score_5_3 score_5_5 score_5_7 score_5_8)

lemma score_6_5:
  "score [Some PlayerX, Some PlayerX, Some PlayerO,
         Some PlayerO, Some PlayerO, Some PlayerX,
         Some PlayerX, None, None] 0 False NegInf PosInf
   = Fin 0"
  by (simp add: eval_score)

lemma score_6_7:
  "score [Some PlayerX, Some PlayerX, Some PlayerO,
         Some PlayerO, Some PlayerO, None,
         Some PlayerX, Some PlayerX, None] 0 False NegInf PosInf
   = Fin (- 9)"
  by (simp add: eval_score)

lemma score_6_8:
  "score [Some PlayerX, Some PlayerX, Some PlayerO,
         Some PlayerO, Some PlayerO, None,
         Some PlayerX, None, Some PlayerX] 0 False NegInf PosInf
   = Fin (- 9)"
  by (simp add: eval_score)

lemma bestMove_6:
  "bestMove [Some PlayerX, Some PlayerX, Some PlayerO,
            Some PlayerO, Some PlayerO, None,
            Some PlayerX, None, None] = 5"
  by (simp add: eval_best
      score_6_5 score_6_7 score_6_8)

lemma score_7_7:
  "score [Some PlayerO, Some PlayerO, Some PlayerX,
         Some PlayerX, Some PlayerX, Some PlayerO,
         Some PlayerO, Some PlayerX, None] 0 False NegInf PosInf
   = Fin 0"
  by (simp add: eval_score)

lemma score_7_8:
  "score [Some PlayerO, Some PlayerO, Some PlayerX,
         Some PlayerX, Some PlayerX, Some PlayerO,
         Some PlayerO, None, Some PlayerX] 0 False NegInf PosInf
   = Fin 0"
  by (simp add: eval_score)

lemma bestMove_7:
  "bestMove [Some PlayerO, Some PlayerO, Some PlayerX,
            Some PlayerX, Some PlayerX, Some PlayerO,
            Some PlayerO, None, None] = 7"
  by (simp add: eval_best
      score_7_7 score_7_8)

lemma score_8_8:
  "score [Some PlayerX, Some PlayerX, Some PlayerO,
         Some PlayerO, Some PlayerO, Some PlayerX,
         Some PlayerX, Some PlayerO, Some PlayerX] 0 False NegInf PosInf
   = Fin 0"
  by (simp add: eval_score)

lemma bestMove_8:
  "bestMove [Some PlayerX, Some PlayerX, Some PlayerO,
            Some PlayerO, Some PlayerO, Some PlayerX,
            Some PlayerX, Some PlayerO, None] = 8"
  by (simp add: eval_best
      score_8_8)

section \<open>The engine against itself\<close>

text \<open>
  The outcome of a position, as the effect that runs after every move computes it from
  \<open>checkWinnerForMiniMax\<close> and \<open>isBoardFull\<close>.
\<close>

datatype Outcome = AIWin | OpponentWin | Draw | Undecided

definition evaluate :: "Board \<Rightarrow> Outcome" where
  "evaluate board =
     (case checkWinnerForMiniMax board of
        Some PlayerX \<Rightarrow> AIWin
      | Some PlayerO \<Rightarrow> OpponentWin
      | None \<Rightarrow> if isDraw board then Draw else Undecided)"

text \<open>
  \<open>makeAIMove\<close>, run when it is the turn of \<open>X\<close> and the game is not over: the engine is
  given a copy of the board, and its move, unless it is \<open>-1\<close>, is marked on a new copy.
\<close>

definition makeAIMove :: "nat \<Rightarrow> Board \<Rightarrow> Board option" where
  "makeAIMove n board =
     (case getBestMove n board of
        None \<Rightarrow> None
      | Some (m, copy) \<Rightarrow>
          if m \<noteq> - 1 then Some (setCell board (nat m) (Some PlayerX)) else Some board)"

text \<open>The board with the marks of the two players exchanged.\<close>

definition swapPlayer :: "Player \<Rightarrow> Player" where
  "swapPlayer p = (case p of PlayerX \<Rightarrow> PlayerO | PlayerO \<Rightarrow> PlayerX)"

definition swapMarks :: "Board \<Rightarrow> Board" where
  "swapMarks board = map (map_option swapPlayer) board"

text \<open>
  Modelled from the spec: the move of the engine for either side. The repository lets
  the engine play \<open>X\<close> only, and a person plays \<open>O\<close>; the specification speaks of a full
  self-play game (AI vs AI) in which both sides always play the optimal move of the
  search engine. The engine moves for \<open>X\<close> by \<open>makeAIMove\<close>; it moves for \<open>O\<close> by running
  \<open>makeAIMove\<close> on the board with the marks exchanged, so that it sees its own marks as
  \<open>X\<close>, and exchanging them back.
\<close>

definition engineMove :: "nat \<Rightarrow> Board \<Rightarrow> Player \<Rightarrow> Board option" where
  "engineMove n board p =
     (case p of
        PlayerX \<Rightarrow> makeAIMove n board
      | PlayerO \<Rightarrow> map_option swapMarks (makeAIMove n (swapMarks board)))"

text \<open>
  Modelled from the spec: the self-play game. \<open>selfPlay n k board p\<close> plays at most \<open>k\<close>
  moves from \<open>board\<close> with \<open>p\<close> to move, the two sides alternating, stops as soon as the
  position is decided and returns its outcome; \<open>None\<close> means that \<open>k\<close> or the fuel \<open>n\<close> of
  the search ran out.
\<close>

fun selfPlay :: "nat \<Rightarrow> nat \<Rightarrow> Board \<Rightarrow> Player \<Rightarrow> Outcome option" where
  "selfPlay n 0 board p = None"
| "selfPlay n (Suc k) board p =
     (if evaluate board \<noteq> Undecided then Some (evaluate board)
      else case engineMove n board p of
             None \<Rightarrow> None
           | Some board' \<Rightarrow> selfPlay n k board' (swapPlayer p))"

lemma swapMarks_update:
  "swapMarks (board[i := v]) = (swapMarks board)[i := map_option swapPlayer v]"
  by (simp add: swapMarks_def map_update)

lemma swapMarks_twice: "swapMarks (swapMarks board) = board"
proof -
  have "map_option swapPlayer (map_option swapPlayer c) = c" for c
    by (cases c) (auto simp: swapPlayer_def split: Player.splits)
  then show ?thesis
    by (simp add: swapMarks_def comp_def)
qed

lemma makeAIMove_bestMove:
  assumes "20 \<le> n" "length board = 9" "bestMove board = int m" "m < 9"
  shows "makeAIMove n board = Some (board[m := Some PlayerX])"
proof -
  have "fuelFor board \<le> n"
    using fuelFor_nine [OF assms(2)] assms(1) by simp
  then show ?thesis
    using assms(2,3,4) by (simp add: makeAIMove_def getBestMove_bestMove setCell_in_range)
qed

lemma selfPlay_X:
  assumes "20 \<le> n" "length board = 9" "evaluate board = Undecided"
    "bestMove board = int m" "m < 9"
  shows "selfPlay n (Suc k) board PlayerX = selfPlay n k (board[m := Some PlayerX]) PlayerO"
  using assms(3) makeAIMove_bestMove [OF assms(1,2,4,5)]
  by (simp add: engineMove_def swapPlayer_def)

lemma selfPlay_O:
  assumes "20 \<le> n" "length board = 9" "evaluate board = Undecided"
    "bestMove (swapMarks board) = int m" "m < 9"
  shows "selfPlay n (Suc k) board PlayerO = selfPlay n k (board[m := Some PlayerO]) PlayerX"
proof -
  have "length (swapMarks board) = 9"
    using assms(2) by (simp add: swapMarks_def)
  from makeAIMove_bestMove [OF assms(1) this assms(4,5)] assms(3) show ?thesis
    by (simp add: engineMove_def swapPlayer_def swapMarks_update swapMarks_twice)
qed

lemma selfPlay_over:
  "evaluate board \<noteq> Undecided \<Longrightarrow> selfPlay n (Suc k) board p = Some (evaluate board)"
  by simp

lemmas eval_outcome =
  evaluate_def isDraw_def win9 full9 swapMarks_def swapPlayer_def

text \<open>
  Claim C9. On the empty board of nine cells \<open>getBestMove\<close> returns a corner or the
  centre (it returns the corner \<open>0\<close>), and the game in which both sides always play the
  move of the search engine, from the empty board with \<open>X\<close> to move, ends in a draw.
\<close>

theorem self_play_draw:
  assumes "20 \<le> n"
  shows "getBestMove n (replicate 9 None) = Some (0, replicate 9 None)
    \<and> (\<exists>m. getBestMove n (replicate 9 None) = Some (m, replicate 9 None)
          \<and> (m = 0 \<or> m = 2 \<or> m = 4 \<or> m = 6 \<or> m = 8))
    \<and> selfPlay n 10 (replicate 9 None) PlayerX = Some Draw"
proof -
  let ?b0 = "[None, None, None,
             None, None, None,
             None, None, None]"
  have e: "replicate 9 None = ?b0"
    by (simp add: numeral_eq_Suc)
  have "fuelFor ?b0 \<le> n"
    using fuelFor_nine [of ?b0] assms by simp
  then have first: "getBestMove n ?b0 = Some (0, ?b0)"
    by (simp only: getBestMove_bestMove bestMove_0)

  have ten: "(10::nat) = Suc (Suc (Suc (Suc (Suc (Suc (Suc (Suc (Suc (Suc 0)))))))))"
    by simp

  have "selfPlay n 10 ?b0 PlayerX
      = selfPlay n (Suc (Suc (Suc (Suc (Suc (Suc (Suc (Suc (Suc (Suc 0)))))))))) ?b0 PlayerX"
    by (simp only: ten)

  also have "\<dots> = selfPlay n (Suc (Suc (Suc (Suc (Suc (Suc (Suc (Suc (Suc 0)))))))))
      [Some PlayerX, None, None,
       None, None, None,
       None, None, None] PlayerO"
    using bestMove_0
    by (intro selfPlay_X [OF assms, of _ 0, THEN trans]) (simp_all add: eval_outcome)

  also have "\<dots> = selfPlay n (Suc (Suc (Suc (Suc (Suc (Suc (Suc (Suc 0))))))))
      [Some PlayerX, None, None,
       None, Some PlayerO, None,
       None, None, None] PlayerX"
    using bestMove_1
    by (intro selfPlay_O [OF assms, of _ 4, THEN trans]) (simp_all add: eval_outcome)

  also have "\<dots> = selfPlay n (Suc (Suc (Suc (Suc (Suc (Suc (Suc 0)))))))
      [Some PlayerX, Some PlayerX, None,
       None, Some PlayerO, None,
       None, None, None] PlayerO"
    using bestMove_2
    by (intro selfPlay_X [OF assms, of _ 1, THEN trans]) (simp_all add: eval_outcome)

  also have "\<dots> = selfPlay n (Suc (Suc (Suc (Suc (Suc (Suc 0))))))
      [Some PlayerX, Some PlayerX, Some PlayerO,
       None, Some PlayerO, None,
       None, None, None] PlayerX"
    using bestMove_3
    by (intro selfPlay_O [OF assms, of _ 2, THEN trans]) (simp_all add: eval_outcome)

  also have "\<dots> = selfPlay n (Suc (Suc (Suc (Suc (Suc 0)))))
      [Some PlayerX, Some PlayerX, Some PlayerO,
       None, Some PlayerO, None,
       Some PlayerX, None, None] PlayerO"
    using bestMove_4
    by (intro selfPlay_X [OF assms, of _ 6, THEN trans]) (simp_all add: eval_outcome)

  also have "\<dots> = selfPlay n (Suc (Suc (Suc (Suc 0))))
      [Some PlayerX, Some PlayerX, Some PlayerO,
       Some PlayerO, Some PlayerO, None,
       Some PlayerX, None, None] PlayerX"
    using bestMove_5
    by (intro selfPlay_O [OF assms, of _ 3, THEN trans]) (simp_all add: eval_outcome)

  also have "\<dots> = selfPlay n (Suc (Suc (Suc 0)))
      [Some PlayerX, Some PlayerX, Some PlayerO,
       Some PlayerO, Some PlayerO, Some PlayerX,
       Some PlayerX, None, None] PlayerO"
    using bestMove_6
    by (intro selfPlay_X [OF assms, of _ 5, THEN trans]) (simp_all add: eval_outcome)

  also have "\<dots> = selfPlay n (Suc (Suc 0))
      [Some PlayerX, Some PlayerX, Some PlayerO,
       Some PlayerO, Some PlayerO, Some PlayerX,
       Some PlayerX, Some PlayerO, None] PlayerX"
    using bestMove_7
    by (intro selfPlay_O [OF assms, of _ 7, THEN trans]) (simp_all add: eval_outcome)

  also have "\<dots> = selfPlay n (Suc 0)
      [Some PlayerX, Some PlayerX, Some PlayerO,
       Some PlayerO, Some PlayerO, Some PlayerX,
       Some PlayerX, Some PlayerO, Some PlayerX] PlayerO"
    using bestMove_8
    by (intro selfPlay_X [OF assms, of _ 8, THEN trans]) (simp_all add: eval_outcome)

  also have "\<dots> = Some Draw"
    by (subst selfPlay_over) (simp_all add: eval_outcome)
  finally have game: "selfPlay n 10 ?b0 PlayerX = Some Draw" .
  from first game show ?thesis
    unfolding e by simp
qed

theorem self_play_draw_witness:
  "(20::nat) \<le> 20
   \<and> getBestMove 20 (replicate 9 None) = Some (0, replicate 9 None)
   \<and> selfPlay 20 10 (replicate 9 None) PlayerX = Some Draw"
proof -
  have n: "(20::nat) \<le> 20"
    by simp
  from self_play_draw [OF n] n show ?thesis
    by blast
qed

end
